theory Spec2Isabelle
  imports Main "HOL-Library.Multiset"
begin

section \<open>Data binding: \<open>Fastcgipp::Sql::Data\<close>\<close>

subsection \<open>The field type enumeration\<close>

text \<open>The enumeration \<open>Data::Type\<close> of sql.hpp, in the order of the source.\<close>

datatype Type =
    U_TINY | U_SHORT | U_INT | U_BIGINT | TINY | SHORT | INT | BIGINT
  | FLOAT | DOUBLE | TIME | DATE | DATETIME | BLOB | TEXT | WTEXT | CHAR | BINARY | BIT
  | U_TINY_N | U_SHORT_N | U_INT_N | U_BIGINT_N | TINY_N | SHORT_N | INT_N | BIGINT_N
  | FLOAT_N | DOUBLE_N | TIME_N | DATE_N | DATETIME_N | BLOB_N | TEXT_N | WTEXT_N
  | CHAR_N | BINARY_N | BIT_N | NOTHING

subsection \<open>\<open>Nullable\<close>\<close>

text \<open>
  \<open>template<class T> struct Nullable: public NullablePar\<close>: the flag \<open>nullness\<close> of the
  base class and the member \<open>object\<close>. "If nullness is true then the value is null."
\<close>

record 'a Nullable =
  nullness :: bool
  object :: 'a

text \<open>
  \<open>Nullable(): NullablePar(false) {}\<close>. The member \<open>object\<close> is default-initialised; what
  that leaves in it depends on \<open>T\<close>, so it is the parameter \<open>dflt\<close>.
\<close>

definition Nullable_default :: "'a \<Rightarrow> 'a Nullable" where
  "Nullable_default dflt = \<lparr>nullness = False, object = dflt\<rparr>"

text \<open>\<open>Nullable(const T& x): NullablePar(false), object(x) { }\<close>\<close>

definition Nullable_from :: "'a \<Rightarrow> 'a Nullable" where
  "Nullable_from x = \<lparr>nullness = False, object = x\<rparr>"

text \<open>\<open>operator T() { return object; }\<close>\<close>

definition Nullable_to_T :: "'a Nullable \<Rightarrow> 'a" where
  "Nullable_to_T n = object n"

subsection \<open>\<open>Set\<close>: the binding contract\<close>

text \<open>
  The virtual member functions of \<open>struct Set\<close> as a record of functions. Addresses are
  natural numbers. \<open>getSqlSize\<close> returns \<open>None\<close> where the function called has no
  \<open>return\<close> statement to produce a value.
\<close>

record Set =
  numberOfSqlElements :: nat
  getSqlType :: "nat \<Rightarrow> Type"
  getSqlSize :: "nat \<Rightarrow> nat option"
  getConstPtr :: "nat \<Rightarrow> nat"

text \<open>
  \<open>virtual size_t getSqlSize(size_t index) const { }\<close>: the body of the base class is
  empty, control reaches the closing brace of a function returning \<open>size_t\<close>.
\<close>

definition Set_getSqlSize :: "nat \<Rightarrow> nat option" where
  "Set_getSqlSize index = None"

text \<open>
  A class derived from \<open>Set\<close> has to define the three pure virtual functions; a class that
  defines nothing more inherits \<open>Set::getSqlSize\<close>.
\<close>

definition Set_derived :: "nat \<Rightarrow> (nat \<Rightarrow> Type) \<Rightarrow> (nat \<Rightarrow> nat) \<Rightarrow> Set" where
  "Set_derived n ty ptr =
     \<lparr>numberOfSqlElements = n, getSqlType = ty, getSqlSize = Set_getSqlSize, getConstPtr = ptr\<rparr>"

text \<open>
  The class \<open>TestSet\<close> of the example in the documentation of \<open>Set\<close>: seven members, the
  last one a \<open>char fixedChunk[16]\<close> of type \<open>BINARY\<close>, and a \<open>getSqlSize\<close> of its own that
  returns \<open>sizeof(fixedChunk)\<close> at index 6 and 0 elsewhere. The addresses of the members
  are the parameter \<open>ptr\<close>.
\<close>

definition TestSet_getSqlType :: "nat \<Rightarrow> Type" where
  "TestSet_getSqlType index =
     (if index = 0 then DOUBLE_N
      else if index = 1 then DATE_N
      else if index = 2 then TIME
      else if index = 3 then DATETIME_N
      else if index = 4 then WTEXT_N
      else if index = 5 then BLOB_N
      else if index = 6 then BINARY
      else NOTHING)"

definition TestSet_getSqlSize :: "nat \<Rightarrow> nat option" where
  "TestSet_getSqlSize index = (if index = 6 then Some 16 else Some 0)"

definition TestSet :: "(nat \<Rightarrow> nat) \<Rightarrow> Set" where
  "TestSet ptr =
     \<lparr>numberOfSqlElements = 7, getSqlType = TestSet_getSqlType,
      getSqlSize = TestSet_getSqlSize, getConstPtr = ptr\<rparr>"

text \<open>\<open>const void* getSqlPtr(size_t index) const { return getConstPtr(index); }\<close>\<close>

definition getSqlPtr :: "Set \<Rightarrow> nat \<Rightarrow> nat" where
  "getSqlPtr s index = getConstPtr s index"

subsection \<open>\<open>SetContainerPar\<close> and \<open>SetContainer\<close>\<close>

text \<open>
  \<open>Cont data\<close> is a \<open>std::list\<close> of shared pointers; the model keeps the sequence of the
  objects pointed to. An iterator of the list is a position: \<open>begin()\<close> is 0 and \<open>end()\<close>
  is the length.
\<close>

record 'a SetContainerPar =
  data :: "'a list"

definition SetContainer_new :: "'a SetContainerPar" where
  "SetContainer_new = \<lparr>data = []\<rparr>"

text \<open>\<open>size_t size() const { return data.size(); }\<close>\<close>

definition size_c :: "'a SetContainerPar \<Rightarrow> nat" where
  "size_c c = length (data c)"

text \<open>\<open>bool empty() const { return data.empty(); }\<close>\<close>

definition empty_c :: "'a SetContainerPar \<Rightarrow> bool" where
  "empty_c c = (data c = [])"

definition begin_c :: "'a SetContainerPar \<Rightarrow> nat" where
  "begin_c c = 0"

definition end_c :: "'a SetContainerPar \<Rightarrow> nat" where
  "end_c c = length (data c)"

text \<open>
  \<open>T& operator*() const\<close> of \<open>SetContainer::iterator\<close>; dereferencing \<open>end()\<close> or beyond is
  not defined.
\<close>

definition deref :: "'a SetContainerPar \<Rightarrow> nat \<Rightarrow> 'a option" where
  "deref c it = (if it < length (data c) then Some (data c ! it) else None)"

text \<open>
  \<open>Cont::iterator manufacture() { data.push_back(boost::shared_ptr<Set>(new T)); return --data.end(); }\<close>
  The object made by \<open>new T\<close> is the parameter \<open>newT\<close>. The result is the container and
  the iterator returned.
\<close>

definition manufacture :: "'a \<Rightarrow> 'a SetContainerPar \<Rightarrow> 'a SetContainerPar \<times> nat" where
  "manufacture newT c =
     (let c' = c\<lparr>data := data c @ [newT]\<rparr> in (c', end_c c' - 1))"

text \<open>
  \<open>void trim() { data.erase(--data.end()); }\<close>. On an empty list \<open>--data.end()\<close> steps
  before \<open>begin()\<close>, which the list does not define: the result is \<open>None\<close>.
\<close>

definition trim :: "'a SetContainerPar \<Rightarrow> 'a SetContainerPar option" where
  "trim c = (if data c = [] then None else Some (c\<lparr>data := butlast (data c)\<rparr>))"

text \<open>
  Forward iteration, the loop \<open>for(it = begin(); it != end(); ++it) visit(*it)\<close> of a
  reader, started at any position up to \<open>end()\<close>.
\<close>

function iterate_from :: "nat \<Rightarrow> 'a SetContainerPar \<Rightarrow> 'a list" where
  "iterate_from it c =
     (if it < end_c c then
        (case deref c it of None \<Rightarrow> [] | Some x \<Rightarrow> x # iterate_from (Suc it) c)
      else [])"
  by pat_completeness auto
termination
  by (relation "measure (\<lambda>(it, c). end_c c - it)") auto

declare iterate_from.simps [simp del]

definition iterate_c :: "'a SetContainerPar \<Rightarrow> 'a list" where
  "iterate_c c = iterate_from (begin_c c) c"

text \<open>Appending one element after the other, each by \<open>manufacture\<close>.\<close>

fun append_all :: "'a list \<Rightarrow> 'a SetContainerPar \<Rightarrow> 'a SetContainerPar" where
  "append_all [] c = c"
| "append_all (x # xs) c = append_all xs (fst (manufacture x c))"

text \<open>A history of calls on one container; it stops where a call is not defined.\<close>

datatype 'a cont_op = Manufacture 'a | Trim

fun apply_ops :: "'a cont_op list \<Rightarrow> 'a SetContainerPar \<Rightarrow> 'a SetContainerPar option" where
  "apply_ops [] c = Some c"
| "apply_ops (Manufacture x # ops) c = apply_ops ops (fst (manufacture x c))"
| "apply_ops (Trim # ops) c = (case trim c of None \<Rightarrow> None | Some c' \<Rightarrow> apply_ops ops c')"

fun is_Trim :: "'a cont_op \<Rightarrow> bool" where
  "is_Trim Trim = True"
| "is_Trim (Manufacture x) = False"

section \<open>Completion messages\<close>

text \<open>
  Modelled from the spec: the declaration of \<open>Fastcgipp::Message\<close> (fastcgi++/message.hpp)
  is not among the sources. The worker uses three members: \<open>type\<close>, \<open>size\<close> and the shared
  array \<open>data\<close>; the spec describes "a type tag and a byte payload". \<open>data_m\<close> is \<open>None\<close>
  while the shared array has not been set.
\<close>

record Message =
  type_m :: int
  size_m :: nat
  data_m :: "string option"

text \<open>
  What the call \<open>query.statement->execute(...)\<close> does to the worker: it returns, or it
  throws an object of a class derived from \<open>std::exception\<close> whose \<open>what()\<close> is the given
  string, or it throws something else.
\<close>

datatype outcome = Returned | Threw_exception string | Threw_other

datatype fault = Uncaught | Read_past_terminator | Front_of_empty

text \<open>
  \<open>std::strlen(p + k)\<close> for a pointer \<open>p\<close> to a NUL-terminated string with the characters
  \<open>s\<close>: defined as long as \<open>p + k\<close> is not beyond the terminator.
\<close>

definition strlen_at :: "string \<Rightarrow> nat \<Rightarrow> nat option" where
  "strlen_at s k = (if k \<le> length s then Some (length s - k) else None)"

text \<open>
  Lines 639 to 652 of sql.hpp: the message is initialised with size 0, and the handler of
  \<open>catch(std::exception& e)\<close> sets \<open>message.size=std::strlen(e.what()+1)\<close>, allocates
  that many bytes and copies as many from \<open>e.what()\<close>.
\<close>

definition completion :: "int \<Rightarrow> outcome \<Rightarrow> fault + Message" where
  "completion typeVal out =
     (case out of
        Returned \<Rightarrow> Inr \<lparr>type_m = typeVal, size_m = 0, data_m = None\<rparr>
      | Threw_exception what \<Rightarrow>
          (case strlen_at what 1 of
             None \<Rightarrow> Inl Read_past_terminator
           | Some n \<Rightarrow> Inr \<lparr>type_m = typeVal, size_m = n, data_m = Some (take n what)\<rparr>)
      | Threw_other \<Rightarrow> Inl Uncaught)"

section \<open>The connection and its worker pool\<close>

subsection \<open>Work items and the shared state\<close>

text \<open>
  \<open>struct Query\<close>: the statement pointer, the four shared pointers (\<open>None\<close> is the empty
  shared pointer of \<open>EMPTY_SQL_SET\<close>, \<open>EMPTY_SQL_CONT\<close>, \<open>EMPTY_SQL_INT\<close>) and the callback,
  all of them by address.
\<close>

record Query =
  statement :: nat
  parameters :: "nat option"
  results :: "nat option"
  insertId :: "nat option"
  rows :: "nat option"
  callback :: nat

type_synonym tid = nat

text \<open>
  The point a thread has reached in \<open>start()\<close> (\<open>S_\<close>), \<open>terminate()\<close> (\<open>T_\<close>), \<open>queue()\<close>
  (\<open>Q_\<close>) or \<open>intHandler()\<close> (\<open>H_\<close> up to the end of the loop body, \<open>X_\<close> after the
  \<open>break\<close>): the statement it executes next, named after what the statement does, with
  the local variables \<open>query\<close> and \<open>message\<close> once they are set. A call of \<open>wait\<close> takes
  three steps: releasing the mutex and blocking (\<open>_wait\<close>), being blocked (\<open>_waiting\<close>)
  and, once woken, taking the mutex again (\<open>_relock\<close>). The lines of sql.hpp:
  \<^item> \<open>start\<close>: \<open>S_lock_terminate\<close> 584, \<open>S_clear\<close> 585, \<open>S_unlock_terminate\<close> 586,
    \<open>S_lock_threads\<close> 588, \<open>S_test\<close> 589, \<open>S_spawn\<close> 591, \<open>S_wait\<close> to \<open>S_relock\<close> 592,
    \<open>S_return\<close> 594;
  \<^item> \<open>terminate\<close>: \<open>T_lock_terminate\<close> 599, \<open>T_set\<close> 600, \<open>T_unlock_terminate\<close> 601,
    \<open>T_notify_all\<close> 602, \<open>T_lock_threads\<close> 604, \<open>T_test\<close> 605, \<open>T_wait\<close> to \<open>T_relock\<close> 606,
    \<open>T_return\<close> 607;
  \<^item> \<open>intHandler\<close>: \<open>H_lock_threads\<close> 612, \<open>H_inc\<close> 613, \<open>H_unlock_threads\<close> 614,
    \<open>H_notify\<close> 615, \<open>H_lock_terminate\<close> 622, \<open>H_test_terminate\<close> 623,
    \<open>H_unlock_terminate\<close> 625, \<open>H_lock_queries\<close> 627, \<open>H_test_size\<close> 628, \<open>H_wait\<close> to
    \<open>H_relock\<close> 630, \<open>H_unlock_empty\<close> 631, \<open>H_pop\<close> 635 and 636, \<open>H_unlock_queries\<close> 637,
    \<open>H_execute\<close> 639 to 652, \<open>H_callback\<close> 654, \<open>X_lock_threads\<close> 658, \<open>X_dec\<close> 659,
    \<open>X_unlock_threads\<close> 660, \<open>X_notify\<close> 661, \<open>X_unlock_terminate\<close> 662;
  \<^item> \<open>queue\<close>: \<open>Q_lock\<close> 666, \<open>Q_push\<close> 667 to 675, \<open>Q_notify\<close> 677, \<open>Q_unlock\<close> 678.
\<close>

datatype pc =
    Unused
  | S_lock_terminate | S_clear | S_unlock_terminate | S_lock_threads | S_test | S_spawn
  | S_wait | S_waiting | S_relock | S_return
  | T_lock_terminate | T_set | T_unlock_terminate | T_notify_all | T_lock_threads | T_test
  | T_wait | T_waiting | T_relock | T_return
  | H_lock_threads | H_inc | H_unlock_threads | H_notify
  | H_lock_terminate | H_test_terminate | H_unlock_terminate
  | H_lock_queries | H_test_size | H_wait | H_waiting | H_relock | H_unlock_empty
  | H_pop | H_unlock_queries Query | H_execute Query | H_callback Query Message
  | X_lock_threads | X_dec | X_unlock_threads | X_notify | X_unlock_terminate
  | Q_lock Query | Q_push Query | Q_notify | Q_unlock
  | Finished
  | Faulted fault

text \<open>
  The members of \<open>Connection\<close> and \<open>ConnectionPar\<close>: the two constants, the counter
  \<open>threads\<close>, the flag \<open>terminateBool\<close>, the queue \<open>queries\<close> and the three mutexes with
  their owners (the class \<open>Queries\<close> is a queue and a mutex at once). The condition
  variables \<open>threadsChanged\<close> and \<open>wakeUp\<close> have no field: their waiting threads are the
  threads at a \<open>_waiting\<close> point. \<open>pcs\<close> gives every thread its point, and the thread
  identifiers below \<open>next_tid\<close> are in use. The last three fields record what has
  happened: the items pushed, the items popped, and the callbacks invoked with their
  messages, each in the order of the events. The counter is an \<open>int\<close> that counts
  threads; the model gives it no bound.
\<close>

record sys =
  typeVal :: int
  maxThreads :: int
  threads :: int
  terminateBool :: bool
  queries :: "Query list"
  threadsMutex :: "tid option"
  terminateMutex :: "tid option"
  queriesMutex :: "tid option"
  pcs :: "tid \<Rightarrow> pc"
  next_tid :: tid
  enqueued :: "Query list"
  dequeued :: "Query list"
  called :: "(Query \<times> Message) list"

text \<open>
  \<open>ConnectionPar(const int typeVal_, const int maxThreads_)\<close>: the constructor of
  \<open>Connection\<close> initialises \<open>typeVal\<close>, \<open>maxThreads\<close> and \<open>threads(0)\<close>; \<open>terminateBool\<close> is
  not initialised, so its first value is the parameter \<open>tb\<close>.
\<close>

definition init :: "int \<Rightarrow> int \<Rightarrow> bool \<Rightarrow> sys" where
  "init tv n tb =
     \<lparr>typeVal = tv, maxThreads = n, threads = 0, terminateBool = tb,
      queries = [], threadsMutex = None, terminateMutex = None, queriesMutex = None,
      pcs = (\<lambda>t. Unused), next_tid = 0, enqueued = [], dequeued = [], called = []\<rparr>"

subsection \<open>Mutexes and condition variables\<close>

definition goto :: "tid \<Rightarrow> pc \<Rightarrow> sys \<Rightarrow> sys" where
  "goto t p s = s\<lparr>pcs := (pcs s)(t := p)\<rparr>"

text \<open>Locking a \<open>boost::mutex\<close> blocks while the mutex has an owner: no step then.\<close>

definition lock_threads :: "tid \<Rightarrow> pc \<Rightarrow> sys \<Rightarrow> sys option" where
  "lock_threads t p s =
     (if threadsMutex s = None then Some (goto t p (s\<lparr>threadsMutex := Some t\<rparr>)) else None)"

definition lock_terminate :: "tid \<Rightarrow> pc \<Rightarrow> sys \<Rightarrow> sys option" where
  "lock_terminate t p s =
     (if terminateMutex s = None then Some (goto t p (s\<lparr>terminateMutex := Some t\<rparr>)) else None)"

definition lock_queries :: "tid \<Rightarrow> pc \<Rightarrow> sys \<Rightarrow> sys option" where
  "lock_queries t p s =
     (if queriesMutex s = None then Some (goto t p (s\<lparr>queriesMutex := Some t\<rparr>)) else None)"

text \<open>Unlocking; entering \<open>wait\<close> unlocks in the same way and blocks.\<close>

definition unlock_threads :: "tid \<Rightarrow> pc \<Rightarrow> sys \<Rightarrow> sys option" where
  "unlock_threads t p s = Some (goto t p (s\<lparr>threadsMutex := None\<rparr>))"

definition unlock_terminate :: "tid \<Rightarrow> pc \<Rightarrow> sys \<Rightarrow> sys option" where
  "unlock_terminate t p s = Some (goto t p (s\<lparr>terminateMutex := None\<rparr>))"

definition unlock_queries :: "tid \<Rightarrow> pc \<Rightarrow> sys \<Rightarrow> sys option" where
  "unlock_queries t p s = Some (goto t p (s\<lparr>queriesMutex := None\<rparr>))"

datatype cond = ThreadsChanged | WakeUp

text \<open>The condition variable a blocked thread waits on.\<close>

fun waits_on :: "pc \<Rightarrow> cond option" where
  "waits_on S_waiting = Some ThreadsChanged"
| "waits_on T_waiting = Some ThreadsChanged"
| "waits_on H_waiting = Some WakeUp"
| "waits_on _ = None"

text \<open>Where a blocked thread continues once it is woken.\<close>

fun woken :: "pc \<Rightarrow> pc" where
  "woken S_waiting = S_relock"
| "woken T_waiting = T_relock"
| "woken H_waiting = H_relock"
| "woken p = p"

text \<open>
  The statements that call \<open>notify_one()\<close>: the condition variable and the statement
  that follows. Line 615 and line 661 notify \<open>threadsChanged\<close>, line 677 notifies
  \<open>wakeUp\<close>.
\<close>

fun notifies :: "pc \<Rightarrow> (cond \<times> pc) option" where
  "notifies H_notify = Some (ThreadsChanged, H_lock_terminate)"
| "notifies X_notify = Some (ThreadsChanged, X_unlock_terminate)"
| "notifies Q_notify = Some (WakeUp, Q_unlock)"
| "notifies _ = None"

definition nobody_waits :: "cond \<Rightarrow> sys \<Rightarrow> bool" where
  "nobody_waits c s = list_all (\<lambda>u. waits_on (pcs s u) \<noteq> Some c) [0..<next_tid s]"

text \<open>\<open>notify_all()\<close> wakes every thread that waits on the condition variable.\<close>

definition notify_all :: "cond \<Rightarrow> sys \<Rightarrow> sys" where
  "notify_all c s =
     s\<lparr>pcs := (\<lambda>u. if waits_on (pcs s u) = Some c then woken (pcs s u) else pcs s u)\<rparr>"

subsection \<open>The statements of \<open>start\<close>, \<open>terminate\<close>, \<open>intHandler\<close> and \<open>queue\<close>\<close>

text \<open>
  One statement of thread \<open>t\<close>, in the order of the source (lines 581 to 678). A thread
  that blocks, has returned or is not in use makes no step. \<open>notify_one()\<close> as a step of
  the thread alone is the case where nobody waits; the call of \<open>execute\<close> is a step of its
  own kind, see \<open>step\<close>. The creation of a thread (line 591) is taken to succeed, and
  the callback to return.
\<close>

fun stmt :: "tid \<Rightarrow> pc \<Rightarrow> sys \<Rightarrow> sys option" where
  "stmt t S_lock_terminate s = lock_terminate t S_clear s"
| "stmt t S_clear s = Some (goto t S_unlock_terminate (s\<lparr>terminateBool := False\<rparr>))"
| "stmt t S_unlock_terminate s = unlock_terminate t S_lock_threads s"
| "stmt t S_lock_threads s = lock_threads t S_test s"
| "stmt t S_test s =
     Some (goto t (if threads s < maxThreads s then S_spawn else S_return) s)"
| "stmt t S_spawn s =
     Some (goto t S_wait
       (s\<lparr>pcs := (pcs s)(next_tid s := H_lock_threads), next_tid := next_tid s + 1\<rparr>))"
| "stmt t S_wait s = unlock_threads t S_waiting s"
| "stmt t S_relock s = lock_threads t S_test s"
| "stmt t S_return s = unlock_threads t Finished s"
| "stmt t T_lock_terminate s = lock_terminate t T_set s"
| "stmt t T_set s = Some (goto t T_unlock_terminate (s\<lparr>terminateBool := True\<rparr>))"
| "stmt t T_unlock_terminate s = unlock_terminate t T_notify_all s"
| "stmt t T_notify_all s = Some (goto t T_lock_threads (notify_all WakeUp s))"
| "stmt t T_lock_threads s = lock_threads t T_test s"
| "stmt t T_test s = Some (goto t (if threads s \<noteq> 0 then T_wait else T_return) s)"
| "stmt t T_wait s = unlock_threads t T_waiting s"
| "stmt t T_relock s = lock_threads t T_test s"
| "stmt t T_return s = unlock_threads t Finished s"
| "stmt t H_lock_threads s = lock_threads t H_inc s"
| "stmt t H_inc s = Some (goto t H_unlock_threads (s\<lparr>threads := threads s + 1\<rparr>))"
| "stmt t H_unlock_threads s = unlock_threads t H_notify s"
| "stmt t H_notify s =
     (if nobody_waits ThreadsChanged s then Some (goto t H_lock_terminate s) else None)"
| "stmt t H_lock_terminate s = lock_terminate t H_test_terminate s"
| "stmt t H_test_terminate s =
     Some (goto t (if terminateBool s then X_lock_threads else H_unlock_terminate) s)"
| "stmt t H_unlock_terminate s = unlock_terminate t H_lock_queries s"
| "stmt t H_lock_queries s = lock_queries t H_test_size s"
| "stmt t H_test_size s = Some (goto t (if queries s = [] then H_wait else H_pop) s)"
| "stmt t H_wait s = unlock_queries t H_waiting s"
| "stmt t H_relock s = lock_queries t H_unlock_empty s"
| "stmt t H_unlock_empty s = unlock_queries t H_lock_terminate s"
| "stmt t H_pop s =
     (case queries s of
        [] \<Rightarrow> Some (goto t (Faulted Front_of_empty) s)
      | query # rest \<Rightarrow>
          Some (goto t (H_unlock_queries query)
            (s\<lparr>queries := rest, dequeued := dequeued s @ [query]\<rparr>)))"
| "stmt t (H_unlock_queries query) s = unlock_queries t (H_execute query) s"
| "stmt t (H_callback query message) s =
     Some (goto t H_lock_terminate (s\<lparr>called := called s @ [(query, message)]\<rparr>))"
| "stmt t X_lock_threads s = lock_threads t X_dec s"
| "stmt t X_dec s = Some (goto t X_unlock_threads (s\<lparr>threads := threads s - 1\<rparr>))"
| "stmt t X_unlock_threads s = unlock_threads t X_notify s"
| "stmt t X_notify s =
     (if nobody_waits ThreadsChanged s then Some (goto t X_unlock_terminate s) else None)"
| "stmt t X_unlock_terminate s = unlock_terminate t Finished s"
| "stmt t (Q_lock query) s = lock_queries t (Q_push query) s"
| "stmt t (Q_push query) s =
     Some (goto t Q_notify (s\<lparr>queries := queries s @ [query], enqueued := enqueued s @ [query]\<rparr>))"
| "stmt t Q_notify s = (if nobody_waits WakeUp s then Some (goto t Q_unlock s) else None)"
| "stmt t Q_unlock s = unlock_queries t Finished s"
| "stmt t _ s = None"

subsection \<open>Steps of the whole system\<close>

text \<open>
  A step is a call of \<open>start()\<close>, \<open>terminate()\<close> or \<open>queue(...)\<close> by a thread of the host
  (each call gets a thread identifier of its own), one statement of a thread, the end of
  a call of \<open>execute\<close> with its outcome, a \<open>notify_one()\<close> that wakes the waiting thread
  \<open>u\<close>, or a wake-up of a waiting thread without a notification, which \<open>wait\<close> allows.
\<close>

datatype action =
    Call_start
  | Call_terminate
  | Call_queue Query
  | Run tid
  | Execute tid outcome
  | Notify tid tid
  | Spurious tid

definition call :: "pc \<Rightarrow> sys \<Rightarrow> sys" where
  "call p s = s\<lparr>pcs := (pcs s)(next_tid s := p), next_tid := next_tid s + 1\<rparr>"

text \<open>
  Lines 639 to 652 in the worker: the message is built by \<open>completion\<close>; where that
  fails, the thread leaves \<open>intHandler\<close> without reaching the callback.
\<close>

definition execute :: "tid \<Rightarrow> outcome \<Rightarrow> sys \<Rightarrow> sys option" where
  "execute t out s =
     (case pcs s t of
        H_execute query \<Rightarrow>
          (case completion (typeVal s) out of
             Inl f \<Rightarrow> Some (goto t (Faulted f) s)
           | Inr message \<Rightarrow> Some (goto t (H_callback query message) s))
      | _ \<Rightarrow> None)"

definition notify_one :: "tid \<Rightarrow> tid \<Rightarrow> sys \<Rightarrow> sys option" where
  "notify_one t u s =
     (case notifies (pcs s t) of
        None \<Rightarrow> None
      | Some (c, p) \<Rightarrow>
          (if waits_on (pcs s u) = Some c
           then Some (s\<lparr>pcs := (pcs s)(u := woken (pcs s u), t := p)\<rparr>) else None))"

definition spurious :: "tid \<Rightarrow> sys \<Rightarrow> sys option" where
  "spurious u s =
     (if waits_on (pcs s u) = None then None else Some (goto u (woken (pcs s u)) s))"

fun step :: "action \<Rightarrow> sys \<Rightarrow> sys option" where
  "step Call_start s = Some (call S_lock_terminate s)"
| "step Call_terminate s = Some (call T_lock_terminate s)"
| "step (Call_queue query) s = Some (call (Q_lock query) s)"
| "step (Run t) s = stmt t (pcs s t) s"
| "step (Execute t out) s = execute t out s"
| "step (Notify t u) s = notify_one t u s"
| "step (Spurious u) s = spurious u s"

text \<open>A schedule is a list of actions; it runs as long as every action can make its step.\<close>

fun run :: "action list \<Rightarrow> sys \<Rightarrow> sys option" where
  "run [] s = Some s"
| "run (a # as) s = (case step a s of None \<Rightarrow> None | Some s' \<Rightarrow> run as s')"

subsection \<open>Invariants of the shared state\<close>

text \<open>
  The points at which a thread owns \<open>threadsMutex\<close>, \<open>terminateMutex\<close> and the mutex of
  \<open>queries\<close>: between the lock and the unlock of the source. A worker that leaves the loop
  by \<open>break\<close> still owns \<open>terminateMutex\<close>, up to the destructor of \<open>terminateLock\<close>.
\<close>

fun holds_threads :: "pc \<Rightarrow> bool" where
  "holds_threads S_test = True"
| "holds_threads S_spawn = True"
| "holds_threads S_wait = True"
| "holds_threads S_return = True"
| "holds_threads T_test = True"
| "holds_threads T_wait = True"
| "holds_threads T_return = True"
| "holds_threads H_inc = True"
| "holds_threads H_unlock_threads = True"
| "holds_threads X_dec = True"
| "holds_threads X_unlock_threads = True"
| "holds_threads _ = False"

fun holds_terminate :: "pc \<Rightarrow> bool" where
  "holds_terminate S_clear = True"
| "holds_terminate S_unlock_terminate = True"
| "holds_terminate T_set = True"
| "holds_terminate T_unlock_terminate = True"
| "holds_terminate H_test_terminate = True"
| "holds_terminate H_unlock_terminate = True"
| "holds_terminate X_lock_threads = True"
| "holds_terminate X_dec = True"
| "holds_terminate X_unlock_threads = True"
| "holds_terminate X_notify = True"
| "holds_terminate X_unlock_terminate = True"
| "holds_terminate _ = False"

fun holds_queries :: "pc \<Rightarrow> bool" where
  "holds_queries H_test_size = True"
| "holds_queries H_wait = True"
| "holds_queries H_unlock_empty = True"
| "holds_queries H_pop = True"
| "holds_queries (H_unlock_queries query) = True"
| "holds_queries (Q_push query) = True"
| "holds_queries Q_notify = True"
| "holds_queries Q_unlock = True"
| "holds_queries _ = False"

definition mutex_inv :: "sys \<Rightarrow> bool" where
  "mutex_inv s =
     (\<forall>t. (holds_threads (pcs s t) \<longrightarrow> threadsMutex s = Some t)
        \<and> (holds_terminate (pcs s t) \<longrightarrow> terminateMutex s = Some t)
        \<and> (holds_queries (pcs s t) \<longrightarrow> queriesMutex s = Some t))"

text \<open>Thread identifiers from \<open>next_tid\<close> on are not in use.\<close>

definition tid_inv :: "sys \<Rightarrow> bool" where
  "tid_inv s = (\<forall>t. next_tid s \<le> t \<longrightarrow> pcs s t = Unused)"

text \<open>
  What the tests of the source have established at the statements they guard: the loop
  of \<open>terminate\<close> is left with the counter at 0, the loop of \<open>start\<close> is left with the
  counter at \<open>maxThreads\<close> or more and entered below it, and \<open>queries.front()\<close> is reached
  with an item in the queue.
\<close>

definition guard_inv :: "sys \<Rightarrow> bool" where
  "guard_inv s =
     (\<forall>t. (pcs s t = T_return \<longrightarrow> threads s = 0)
        \<and> (pcs s t = S_return \<longrightarrow> maxThreads s \<le> threads s)
        \<and> (pcs s t = S_spawn \<longrightarrow> threads s < maxThreads s)
        \<and> (pcs s t = H_pop \<longrightarrow> queries s \<noteq> []))"

text \<open>The item a worker has popped and not yet reported.\<close>

fun holding :: "pc \<Rightarrow> Query multiset" where
  "holding (H_unlock_queries query) = {#query#}"
| "holding (H_execute query) = {#query#}"
| "holding (H_callback query message) = {#query#}"
| "holding _ = {#}"

definition inflight :: "sys \<Rightarrow> Query multiset" where
  "inflight s = (\<Sum>t<next_tid s. holding (pcs s t))"

definition called_inv :: "sys \<Rightarrow> bool" where
  "called_inv s = (mset (map fst (called s)) + inflight s \<subseteq># mset (dequeued s))"

text \<open>
  The threads that run \<open>intHandler\<close> or \<open>start\<close>: the workers and the threads that can
  create workers.
\<close>

fun live :: "pc \<Rightarrow> bool" where
  "live Unused = False"
| "live T_lock_terminate = False"
| "live T_set = False"
| "live T_unlock_terminate = False"
| "live T_notify_all = False"
| "live T_lock_threads = False"
| "live T_test = False"
| "live T_wait = False"
| "live T_waiting = False"
| "live T_relock = False"
| "live T_return = False"
| "live (Q_lock query) = False"
| "live (Q_push query) = False"
| "live Q_notify = False"
| "live Q_unlock = False"
| "live Finished = False"
| "live (Faulted f) = False"
| "live _ = True"

text \<open>The pool has stopped: no thread in use runs \<open>intHandler\<close> or \<open>start\<close>.\<close>

definition stopped :: "sys \<Rightarrow> bool" where
  "stopped s = list_all (\<lambda>t. \<not> live (pcs s t)) [0..<next_tid s]"

definition no_start :: "action list \<Rightarrow> bool" where
  "no_start sched = list_all (\<lambda>a. a \<noteq> Call_start) sched"

subsection \<open>The counter and the workers\<close>

text \<open>
  The workers that the counter \<open>threads\<close> counts: a thread in \<open>intHandler\<close> that has
  executed \<open>++threads\<close> (line 613) and not \<open>--threads\<close> (line 659). A worker that an
  exception has ended never reaches line 659 and stays counted.
\<close>

fun counted :: "pc \<Rightarrow> int" where
  "counted H_unlock_threads = 1"
| "counted H_notify = 1"
| "counted H_lock_terminate = 1"
| "counted H_test_terminate = 1"
| "counted H_unlock_terminate = 1"
| "counted H_lock_queries = 1"
| "counted H_test_size = 1"
| "counted H_wait = 1"
| "counted H_waiting = 1"
| "counted H_relock = 1"
| "counted H_unlock_empty = 1"
| "counted H_pop = 1"
| "counted (H_unlock_queries query) = 1"
| "counted (H_execute query) = 1"
| "counted (H_callback query message) = 1"
| "counted X_lock_threads = 1"
| "counted X_dec = 1"
| "counted (Faulted f) = 1"
| "counted _ = 0"

definition count_inv :: "sys \<Rightarrow> bool" where
  "count_inv s = (threads s = (\<Sum>t<next_tid s. counted (pcs s t)))"


text \<open>
  As long as no exception has ended a worker, every item popped has been reported to
  its callback or is held by a worker.
\<close>

fun faulted :: "pc \<Rightarrow> bool" where
  "faulted (Faulted f) = True"
| "faulted _ = False"

definition exact_inv :: "sys \<Rightarrow> bool" where
  "exact_inv s =
     ((\<forall>t. \<not> faulted (pcs s t)) \<longrightarrow>
        mset (map fst (called s)) + inflight s = mset (dequeued s))"

subsection \<open>Orderly runs\<close>















subsection \<open>Schedules of a pool of one worker\<close>

definition item1 :: Query where
  "item1 = \<lparr>statement = 1, parameters = None, results = None, insertId = None, rows = None,
     callback = 1\<rparr>"

definition item2 :: Query where
  "item2 = \<lparr>statement = 1, parameters = None, results = None, insertId = None, rows = None,
     callback = 2\<rparr>"

text \<open>
  \<open>start()\<close> by thread 0 up to its return; it creates the worker, thread 1, whose
  \<open>notify_one()\<close> wakes thread 0.
\<close>

definition sched_start :: "action list" where
  "sched_start =
     [Call_start, Run 0, Run 0, Run 0, Run 0, Run 0, Run 0, Run 0,
      Run 1, Run 1, Run 1, Notify 1 0, Run 0, Run 0, Run 0]"

text \<open>The worker goes through the loop once, finds the queue empty and waits.\<close>

definition sched_idle :: "action list" where
  "sched_idle = [Run 1, Run 1, Run 1, Run 1, Run 1, Run 1]"

text \<open>
  \<open>queue(item1)\<close> by thread 2 while the worker waits: its \<open>notify_one()\<close> wakes the
  worker.
\<close>

definition sched_queue1 :: "action list" where
  "sched_queue1 = [Call_queue item1, Run 2, Run 2, Notify 2 1, Run 2]"

text \<open>
  \<open>terminate()\<close> by thread 3 up to its wait for the counter; the woken worker takes
  the mutex of the queue again, goes to the head of the loop, finds the flag set and
  leaves; its \<open>notify_one()\<close> wakes thread 3, and \<open>terminate()\<close> returns.
\<close>

definition sched_terminate :: "action list" where
  "sched_terminate =
     [Call_terminate, Run 3, Run 3, Run 3, Run 3, Run 3, Run 3, Run 3,
      Run 1, Run 1, Run 1, Run 1, Run 1, Run 1, Run 1, Notify 1 3, Run 1,
      Run 3, Run 3, Run 3]"

definition sched_dropped :: "action list" where
  "sched_dropped = sched_start @ sched_idle @ sched_queue1 @ sched_terminate"

text \<open>
  After that, \<open>start()\<close> again, by thread 4, with the new worker, thread 5, which pops
  \<open>item1\<close>, executes it and invokes its callback.
\<close>

definition sched_restart :: "action list" where
  "sched_restart =
     [Call_start, Run 4, Run 4, Run 4, Run 4, Run 4, Run 4, Run 4,
      Run 5, Run 5, Run 5, Notify 5 4, Run 4, Run 4, Run 4,
      Run 5, Run 5, Run 5, Run 5, Run 5, Run 5, Run 5, Execute 5 Returned, Run 5]"

text \<open>
  Two items are queued before the pool starts, by the threads 0 and 1; \<open>start()\<close> by
  thread 2 creates the worker, thread 3, which pops \<open>item1\<close> and releases the mutex of
  the queue: it is about to call \<open>execute\<close>.
\<close>

definition sched_popped :: "action list" where
  "sched_popped =
     [Call_queue item1, Run 0, Run 0, Run 0, Run 0,
      Call_queue item2, Run 1, Run 1, Run 1, Run 1,
      Call_start, Run 2, Run 2, Run 2, Run 2, Run 2, Run 2, Run 2,
      Run 3, Run 3, Run 3, Notify 3 2, Run 2, Run 2, Run 2,
      Run 3, Run 3, Run 3, Run 3, Run 3, Run 3, Run 3]"

text \<open>
  \<open>start()\<close> and an idle worker as before; \<open>terminate()\<close> by thread 2 has set the flag
  and released its mutex.
\<close>

definition sched_stopping :: "action list" where
  "sched_stopping = sched_start @ sched_idle @ [Call_terminate, Run 2, Run 2, Run 2]"

text \<open>A second call of \<open>start()\<close>, by thread 3, from its first statement to its return.\<close>

definition sched_start_again :: "action list" where
  "sched_start_again = [Call_start, Run 3, Run 3, Run 3, Run 3, Run 3, Run 3]"

text \<open>
  The first \<open>k\<close> steps of \<open>sched_start\<close>; of \<open>sched_queue1\<close>, after the pool has started
  and its worker waits; of \<open>sched_terminate\<close>, after that; and of \<open>sched_popped\<close>.
\<close>

definition sched_starting :: "nat \<Rightarrow> action list" where
  "sched_starting k = take k sched_start"

definition sched_queueing :: "nat \<Rightarrow> action list" where
  "sched_queueing k = sched_start @ sched_idle @ take k sched_queue1"

definition sched_terminating :: "nat \<Rightarrow> action list" where
  "sched_terminating k = sched_start @ sched_idle @ sched_queue1 @ take k sched_terminate"

definition sched_popping :: "nat \<Rightarrow> action list" where
  "sched_popping k = take k sched_popped"

text \<open>\<open>queue(item2)\<close> by thread 4, from the call to the return, with nobody to wake.\<close>

definition sched_queue2 :: "action list" where
  "sched_queue2 = [Call_queue item2, Run 4, Run 4, Run 4, Run 4]"

text \<open>
  The state a schedule leads to, from a new connection with \<open>typeVal\<close> 0 and a pool of
  one worker.
\<close>

definition state_after :: "action list \<Rightarrow> sys" where
  "state_after sched = the (run sched (init 0 1 False))"

text \<open>
  After \<open>sched_popped\<close>: the call of \<open>execute\<close> returns and the worker, thread 3,
  invokes the callback of \<open>item1\<close>; \<open>terminate()\<close> by thread 4 sets the flag and waits
  for the counter; the worker finds the flag set at the head of its loop and leaves,
  its \<open>notify_one()\<close> wakes thread 4, which finds the counter at 0 and is at its
  return. \<open>item2\<close> is still in the queue.
\<close>

definition sched_served :: "action list" where
  "sched_served =
     sched_popped @ [Execute 3 Returned, Run 3,
      Call_terminate, Run 4, Run 4, Run 4, Run 4, Run 4, Run 4, Run 4,
      Run 3, Run 3, Run 3, Run 3, Run 3, Notify 3 4, Run 3,
      Run 4, Run 4]"

subsection \<open>Schedules of \<open>start()\<close> with the workers it creates\<close>










section \<open>Properties of the data binding\<close>

lemma iterate_from_drop: "iterate_from it c = drop it (data c)"
proof (induction it c rule: iterate_from.induct)
  case (1 it c)
  show ?case
  proof (cases "it < length (data c)")
    case True
    then have "iterate_from it c = data c ! it # iterate_from (Suc it) c"
      by (subst iterate_from.simps) (simp add: end_c_def deref_def)
    also have "\<dots> = data c ! it # drop (Suc it) (data c)"
      using 1 True by (simp add: end_c_def deref_def)
    also have "\<dots> = drop it (data c)"
      using True by (simp add: Cons_nth_drop_Suc)
    finally show ?thesis .
  next
    case False
    then show ?thesis by (subst iterate_from.simps) (simp add: end_c_def)
  qed
qed

lemma iterate_c_data: "iterate_c c = data c"
  by (simp add: iterate_c_def begin_c_def iterate_from_drop)

lemma data_append_all: "data (append_all xs c) = data c @ xs"
  by (induction xs arbitrary: c) (simp_all add: manufacture_def Let_def)

lemma size_apply_ops:
  "apply_ops ops c = Some c' \<Longrightarrow>
   size_c c' + length (filter is_Trim ops) = size_c c + length (filter (\<lambda>x. \<not> is_Trim x) ops)"
proof (induction ops arbitrary: c)
  case Nil
  then show ?case by simp
next
  case (Cons x ops)
  show ?case
  proof (cases x)
    case (Manufacture y)
    with Cons.prems have "apply_ops ops (fst (manufacture y c)) = Some c'" by simp
    from Cons.IH [OF this] Manufacture show ?thesis
      by (simp add: manufacture_def Let_def size_c_def)
  next
    case Trim
    with Cons.prems obtain c1 where t: "trim c = Some c1" and r: "apply_ops ops c1 = Some c'"
      by (auto split: option.splits)
    from t have "data c \<noteq> []" and "c1 = c\<lparr>data := butlast (data c)\<rparr>"
      by (auto simp: trim_def split: if_splits)
    then have "size_c c = Suc (size_c c1)"
      by (simp add: size_c_def)
    with Cons.IH [OF r] Trim show ?thesis by simp
  qed
qed

text \<open>
  C2, as the code has it: a default-constructed \<open>Nullable\<close> has \<open>nullness\<close> false, that is,
  it reports not null; a \<open>Nullable\<close> constructed from \<open>x\<close> reports not null and stores \<open>x\<close>,
  and converting it back to \<open>T\<close> returns \<open>x\<close>.
\<close>

theorem Nullable_constructors:
  "nullness (Nullable_default d) = False
   \<and> nullness (Nullable_from x) = False
   \<and> object (Nullable_from x) = x
   \<and> Nullable_to_T (Nullable_from x) = x"
  by (simp add: Nullable_default_def Nullable_from_def Nullable_to_T_def)

text \<open>
  C2 as stated fails: the default-constructed \<open>Nullable<int>\<close> does not report null.
\<close>

theorem Nullable_default_not_null: "\<not> nullness (Nullable_default (0::int)) = True"
  by (simp add: Nullable_default_def)

text \<open>
  C8: on a new container, appending the elements \<open>xs\<close>, each by \<open>manufacture\<close>, and then
  iterating forward yields exactly \<open>xs\<close>, in the order of the appends; on any container the
  appended elements follow the earlier ones and the size grows by their number. A \<open>trim\<close>
  right after an append gives back the container as it was before the append: the size is
  one less, the element appended last is gone, the earlier ones are unchanged.
\<close>

theorem append_iterate_trim:
  "iterate_c (append_all xs SetContainer_new) = xs
   \<and> size_c (append_all xs SetContainer_new) = length xs
   \<and> iterate_c (append_all xs c) = iterate_c c @ xs
   \<and> size_c (append_all xs c) = size_c c + length xs
   \<and> iterate_c (fst (manufacture x c)) = iterate_c c @ [x]
   \<and> deref (fst (manufacture x c)) (snd (manufacture x c)) = Some x
   \<and> size_c (fst (manufacture x c)) = size_c c + 1
   \<and> trim (fst (manufacture x c)) = Some c
   \<and> size_c c = size_c (fst (manufacture x c)) - 1"
  by (simp add: iterate_c_data data_append_all size_c_def SetContainer_new_def
      manufacture_def Let_def trim_def deref_def end_c_def)

text \<open>
  C9: \<open>Set::getSqlSize\<close> as the base class defines it produces no value, at any index, and
  so does the accessor of a derived class that does not override it, whatever the types
  of its members. The class \<open>TestSet\<close> of the documentation, with a member of type
  \<open>BINARY\<close>, overrides it and gets the size of that member.
\<close>

theorem getSqlSize_not_overridden:
  "Set_getSqlSize index = None
   \<and> getSqlSize (Set_derived n ty ptr) index = None
   \<and> getSqlType (TestSet ptr) 6 = BINARY
   \<and> getSqlSize (TestSet ptr) 6 = Some 16"
  by (simp add: Set_getSqlSize_def Set_derived_def TestSet_def TestSet_getSqlType_def
      TestSet_getSqlSize_def)

text \<open>
  C10: \<open>trim\<close> is undefined exactly on an empty container. In a history of calls that
  starts from a new container and is defined so far, a further \<open>trim\<close> is defined exactly
  when the history holds more appends than trims.
\<close>

theorem trim_needs_untrimmed_append:
  "(trim c = None) = empty_c c
   \<and> (apply_ops ops SetContainer_new = Some c' \<longrightarrow>
        (trim c' \<noteq> None) = (length (filter is_Trim ops) < length (filter (\<lambda>x. \<not> is_Trim x) ops)))"
proof (intro conjI impI)
  show "(trim c = None) = empty_c c"
    by (simp add: trim_def empty_c_def)
next
  assume "apply_ops ops SetContainer_new = Some c'"
  from size_apply_ops [OF this]
  have "size_c c' + length (filter is_Trim ops) = length (filter (\<lambda>x. \<not> is_Trim x) ops)"
    by (simp add: size_c_def SetContainer_new_def)
  moreover have "(trim c' \<noteq> None) = (0 < size_c c')"
    by (simp add: trim_def size_c_def)
  ultimately show
    "(trim c' \<noteq> None) = (length (filter is_Trim ops) < length (filter (\<lambda>x. \<not> is_Trim x) ops))"
    by arith
qed

theorem trim_needs_untrimmed_append_witness:
  "apply_ops [Manufacture (1::nat), Manufacture 2, Trim] SetContainer_new = Some \<lparr>data = [1]\<rparr>
   \<and> trim \<lparr>data = [1::nat]\<rparr> \<noteq> None
   \<and> apply_ops [Manufacture (1::nat), Trim] SetContainer_new = Some \<lparr>data = []\<rparr>
   \<and> trim \<lparr>data = []::nat list\<rparr> = None"
  using trim_needs_untrimmed_append [of "\<lparr>data = []::nat list\<rparr>"
      "[Manufacture (1::nat), Manufacture 2, Trim]" "\<lparr>data = [1]\<rparr>"]
    trim_needs_untrimmed_append [of "\<lparr>data = []::nat list\<rparr>"
      "[Manufacture (1::nat), Trim]" "\<lparr>data = []\<rparr>"]
  by (simp add: SetContainer_new_def manufacture_def Let_def trim_def empty_c_def)

text \<open>
  C1 at the input \<open>"duplicate key"\<close>: the handler measures the description from its second
  character on, so the payload has 12 bytes and lacks the last character of the
  description. A successful item gets a payload of size 0.
\<close>

theorem completion_duplicate_key:
  "completion tv (Threw_exception ''duplicate key'')
     = Inr \<lparr>type_m = tv, size_m = 12, data_m = Some ''duplicate ke''\<rparr>
   \<and> completion tv Returned = Inr \<lparr>type_m = tv, size_m = 0, data_m = None\<rparr>"
  by (simp add: completion_def strlen_at_def)

section \<open>Properties of the worker pool\<close>

subsection \<open>Auxiliary facts about the points of a thread\<close>

lemmas sys_defs = goto_def lock_threads_def lock_terminate_def lock_queries_def
  unlock_threads_def unlock_terminate_def unlock_queries_def call_def notify_all_def
  execute_def notify_one_def spurious_def

lemmas eval_defs = init_def sys_defs nobody_waits_def item1_def item2_def completion_def
  sched_start_def sched_idle_def sched_queue1_def sched_terminate_def sched_dropped_def
  sched_restart_def sched_popped_def sched_stopping_def sched_start_again_def state_after_def
  sched_starting_def sched_queueing_def sched_terminating_def sched_popping_def sched_queue2_def

lemma waits_on_woken:
  "waits_on p = Some c \<Longrightarrow>
     \<not> holds_threads (woken p) \<and> \<not> holds_terminate (woken p) \<and> \<not> holds_queries (woken p)
     \<and> \<not> holds_threads p \<and> \<not> holds_terminate p \<and> \<not> holds_queries p
     \<and> woken p \<noteq> Unused \<and> p \<noteq> Unused
     \<and> woken p \<noteq> T_return \<and> woken p \<noteq> S_return \<and> woken p \<noteq> S_spawn \<and> woken p \<noteq> H_pop
     \<and> holding (woken p) = {#} \<and> holding p = {#}
     \<and> live (woken p) = live p"
  by (cases p) auto

lemma notifies_next:
  "notifies p = Some (c, p') \<Longrightarrow>
     (holds_threads p' \<longrightarrow> holds_threads p) \<and> (holds_terminate p' \<longrightarrow> holds_terminate p)
     \<and> (holds_queries p' \<longrightarrow> holds_queries p)
     \<and> p \<noteq> Unused \<and> p' \<noteq> T_return \<and> p' \<noteq> S_return \<and> p' \<noteq> S_spawn \<and> p' \<noteq> H_pop
     \<and> holding p' = {#} \<and> holding p = {#}
     \<and> live p' = live p"
  by (cases p) auto

lemma live_woken: "live (woken p) = live p"
  by (cases p) auto

lemma holding_woken:
  "holding (if waits_on p = Some c then woken p else p) = holding p"
  by (cases p) auto

lemma wake_all_WakeUp:
  "(if waits_on p = Some WakeUp then woken p else p) = (if p = H_waiting then H_relock else p)"
  by (cases p) auto

subsection \<open>Mutual exclusion\<close>

text \<open>
  A thread between a lock and its unlock is the owner of the mutex: every statement
  and every other step keeps \<open>mutex_inv\<close>.
\<close>

lemma stmt_mutex_inv:
  assumes "stmt t (pcs s t) s = Some s'" and "mutex_inv s"
  shows "mutex_inv s'"
  unfolding mutex_inv_def
proof (intro allI)
  fix u
  from assms(2) have t: "(holds_threads (pcs s t) \<longrightarrow> threadsMutex s = Some t)
        \<and> (holds_terminate (pcs s t) \<longrightarrow> terminateMutex s = Some t)
        \<and> (holds_queries (pcs s t) \<longrightarrow> queriesMutex s = Some t)"
    and u: "(holds_threads (pcs s u) \<longrightarrow> threadsMutex s = Some u)
        \<and> (holds_terminate (pcs s u) \<longrightarrow> terminateMutex s = Some u)
        \<and> (holds_queries (pcs s u) \<longrightarrow> queriesMutex s = Some u)"
    by (simp_all add: mutex_inv_def)
  show "(holds_threads (pcs s' u) \<longrightarrow> threadsMutex s' = Some u)
        \<and> (holds_terminate (pcs s' u) \<longrightarrow> terminateMutex s' = Some u)
        \<and> (holds_queries (pcs s' u) \<longrightarrow> queriesMutex s' = Some u)"
  proof (cases "u = t")
    case True
    then show ?thesis using assms(1) t
      by (cases "pcs s t") (clarsimp simp: sys_defs split: if_splits list.splits)+
  next
    case False
    then show ?thesis using assms(1) t u
      by (cases "pcs s t") (clarsimp simp: sys_defs waits_on_woken split: if_splits list.splits)+
  qed
qed

lemma step_mutex_inv:
  assumes "step a s = Some s'" and "mutex_inv s" and "tid_inv s"
  shows "mutex_inv s'"
proof (cases a)
  case (Run t)
  with assms show ?thesis by (simp add: stmt_mutex_inv)
next
  case (Execute t out)
  with assms show ?thesis
    by (auto simp: mutex_inv_def sys_defs split: pc.splits sum.splits if_splits)
next
  case (Notify t u)
  with assms(1) obtain c p where n: "notifies (pcs s t) = Some (c, p)"
    and w: "waits_on (pcs s u) = Some c"
    and s': "s' = s\<lparr>pcs := (pcs s)(u := woken (pcs s u), t := p)\<rparr>"
    by (auto simp: sys_defs split: option.splits if_splits)
  from assms(2) have "(holds_threads (pcs s v) \<longrightarrow> threadsMutex s = Some v)
        \<and> (holds_terminate (pcs s v) \<longrightarrow> terminateMutex s = Some v)
        \<and> (holds_queries (pcs s v) \<longrightarrow> queriesMutex s = Some v)" for v
    by (simp add: mutex_inv_def)
  with notifies_next [OF n] waits_on_woken [OF w] show ?thesis
    by (simp add: mutex_inv_def s')
next
  case (Spurious u)
  with assms show ?thesis
    by (auto simp: mutex_inv_def sys_defs waits_on_woken split: if_splits)
qed (use assms in \<open>auto simp: mutex_inv_def tid_inv_def sys_defs split: if_splits\<close>)

subsection \<open>Thread identifiers\<close>

lemma stmt_tid_inv:
  assumes "stmt t (pcs s t) s = Some s'" and "tid_inv s"
  shows "tid_inv s'"
  unfolding tid_inv_def
proof (intro allI impI)
  fix u assume le: "next_tid s' \<le> u"
  from assms(2) have t: "next_tid s \<le> t \<longrightarrow> pcs s t = Unused"
    and u: "next_tid s \<le> u \<longrightarrow> pcs s u = Unused"
    by (simp_all add: tid_inv_def)
  show "pcs s' u = Unused"
    using assms(1) t u le
    by (cases "pcs s t") (clarsimp simp: sys_defs split: if_splits list.splits)+
qed

lemma step_tid_inv:
  assumes "step a s = Some s'" and "tid_inv s"
  shows "tid_inv s'"
proof (cases a)
  case (Run t)
  with assms show ?thesis by (simp add: stmt_tid_inv)
next
  case (Execute t out)
  with assms show ?thesis
    by (auto simp: tid_inv_def sys_defs split: pc.splits sum.splits if_splits)
next
  case (Notify t u)
  with assms(1) obtain c p where n: "notifies (pcs s t) = Some (c, p)"
    and w: "waits_on (pcs s u) = Some c"
    and s': "s' = s\<lparr>pcs := (pcs s)(u := woken (pcs s u), t := p)\<rparr>"
    by (auto simp: sys_defs split: option.splits if_splits)
  from assms(2) have "next_tid s \<le> v \<longrightarrow> pcs s v = Unused" for v
    by (simp add: tid_inv_def)
  from this [of t] this [of u] this notifies_next [OF n] waits_on_woken [OF w] show ?thesis
    by (auto simp add: tid_inv_def s')
next
  case (Spurious u)
  with assms show ?thesis
    by (auto simp: tid_inv_def sys_defs waits_on_woken split: if_splits)
qed (use assms in \<open>auto simp: tid_inv_def sys_defs split: if_splits\<close>)

subsection \<open>What the tests have established\<close>

text \<open>
  The counter and the queue change only under their mutexes, so what a thread has
  tested still holds while it owns the mutex.
\<close>

lemma stmt_guard_inv:
  assumes "stmt t (pcs s t) s = Some s'" and "guard_inv s" and "mutex_inv s"
  shows "guard_inv s'"
  unfolding guard_inv_def
proof (intro allI)
  fix u
  from assms(3) have t: "(holds_threads (pcs s t) \<longrightarrow> threadsMutex s = Some t)
        \<and> (holds_queries (pcs s t) \<longrightarrow> queriesMutex s = Some t)"
    by (simp add: mutex_inv_def)
  from assms(3) have "(holds_threads (pcs s u) \<longrightarrow> threadsMutex s = Some u)
        \<and> (holds_queries (pcs s u) \<longrightarrow> queriesMutex s = Some u)"
    by (simp add: mutex_inv_def)
  then have u: "threadsMutex s = Some t \<longrightarrow> u \<noteq> t \<longrightarrow>
              pcs s u \<noteq> T_return \<and> pcs s u \<noteq> S_return \<and> pcs s u \<noteq> S_spawn"
           "queriesMutex s = Some t \<longrightarrow> u \<noteq> t \<longrightarrow> pcs s u \<noteq> H_pop"
    by auto
  from assms(2) have g: "(pcs s u = T_return \<longrightarrow> threads s = 0)
        \<and> (pcs s u = S_return \<longrightarrow> maxThreads s \<le> threads s)
        \<and> (pcs s u = S_spawn \<longrightarrow> threads s < maxThreads s)
        \<and> (pcs s u = H_pop \<longrightarrow> queries s \<noteq> [])"
    by (simp add: guard_inv_def)
  show "(pcs s' u = T_return \<longrightarrow> threads s' = 0)
        \<and> (pcs s' u = S_return \<longrightarrow> maxThreads s' \<le> threads s')
        \<and> (pcs s' u = S_spawn \<longrightarrow> threads s' < maxThreads s')
        \<and> (pcs s' u = H_pop \<longrightarrow> queries s' \<noteq> [])"
  proof (cases "u = t")
    case True
    then show ?thesis using assms(1)
      by (cases "pcs s t") (clarsimp simp: sys_defs split: if_splits list.splits)+
  next
    case False
    then show ?thesis using assms(1) t u g
      by (cases "pcs s t") (clarsimp simp: sys_defs waits_on_woken split: if_splits list.splits)+
  qed
qed

lemma step_guard_inv:
  assumes "step a s = Some s'" and "guard_inv s" and "mutex_inv s" and "tid_inv s"
  shows "guard_inv s'"
proof (cases a)
  case (Run t)
  with assms show ?thesis by (simp add: stmt_guard_inv)
next
  case (Execute t out)
  with assms show ?thesis
    by (auto simp: guard_inv_def sys_defs split: pc.splits sum.splits if_splits)
next
  case (Notify t u)
  with assms(1) obtain c p where n: "notifies (pcs s t) = Some (c, p)"
    and w: "waits_on (pcs s u) = Some c"
    and s': "s' = s\<lparr>pcs := (pcs s)(u := woken (pcs s u), t := p)\<rparr>"
    by (auto simp: sys_defs split: option.splits if_splits)
  from assms(2) have "(pcs s v = T_return \<longrightarrow> threads s = 0)
        \<and> (pcs s v = S_return \<longrightarrow> maxThreads s \<le> threads s)
        \<and> (pcs s v = S_spawn \<longrightarrow> threads s < maxThreads s)
        \<and> (pcs s v = H_pop \<longrightarrow> queries s \<noteq> [])" for v
    by (simp add: guard_inv_def)
  with notifies_next [OF n] waits_on_woken [OF w] show ?thesis
    by (simp add: guard_inv_def s')
next
  case (Spurious u)
  with assms show ?thesis
    by (auto simp: guard_inv_def sys_defs waits_on_woken split: if_splits)
qed (use assms in \<open>auto simp: guard_inv_def tid_inv_def sys_defs split: if_splits\<close>)

subsection \<open>The order of the queue\<close>

lemma stmt_fifo:
  assumes "stmt t (pcs s t) s = Some s'" and "dequeued s @ queries s = enqueued s"
  shows "dequeued s' @ queries s' = enqueued s'"
  using assms
  by (cases "pcs s t") (clarsimp simp: sys_defs split: if_splits list.splits)+

lemma step_fifo:
  assumes "step a s = Some s'" and "dequeued s @ queries s = enqueued s"
  shows "dequeued s' @ queries s' = enqueued s'"
proof (cases a)
  case (Run t)
  with assms show ?thesis by (simp add: stmt_fifo)
qed (use assms in \<open>auto simp: sys_defs split: pc.splits sum.splits option.splits if_splits\<close>)

subsection \<open>Callbacks and popped items\<close>

text \<open>
  The items reported by a callback and the items the workers still hold are among the
  items popped, with their multiplicities.
\<close>

lemma sum_holding_upd:
  assumes "t < (n::nat)"
  shows "(\<Sum>u<n. holding (if u = t then p else f u)) + holding (f t)
           = (\<Sum>u<n. holding (f u)) + holding p"
proof -
  have t: "t \<in> {..<n}" using assms by simp
  have fin: "finite {..<n}" by simp
  have "(\<Sum>u\<in>{..<n} - {t}. holding (if u = t then p else f u))
          = (\<Sum>u\<in>{..<n} - {t}. holding (f u))"
    by (rule sum.cong) auto
  then show ?thesis
    unfolding sum.remove [OF fin t] by (simp add: ac_simps)
qed

lemma sum_holding_same:
  "holding p = holding (f t) \<Longrightarrow>
     (\<Sum>u<n::nat. holding (if u = t then p else f u)) = (\<Sum>u<n. holding (f u))"
  by (rule sum.cong) auto

lemma sum_holding_add:
  "t < (n::nat) \<Longrightarrow> holding (f t) = {#} \<Longrightarrow>
     (\<Sum>u<n. holding (if u = t then p else f u)) = (\<Sum>u<n. holding (f u)) + holding p"
  using sum_holding_upd [of t n p f] by simp

lemma sum_holding_beyond:
  "(\<Sum>u<n::nat. holding (if u = n then p else f u)) = (\<Sum>u<n. holding (f u))"
  by (rule sum.cong) simp_all

lemma stmt_called_inv:
  assumes "stmt t (pcs s t) s = Some s'" and "called_inv s" and "tid_inv s"
  shows "called_inv s'"
proof -
  from assms(3) have t: "pcs s t \<noteq> Unused \<longrightarrow> t < next_tid s"
    by (auto simp: tid_inv_def not_le [symmetric])
  have c: "mset (map fst (called s)) + (\<Sum>u<next_tid s. holding (pcs s u)) \<subseteq># mset (dequeued s)"
    using assms(2) by (simp add: called_inv_def inflight_def)
  show ?thesis
  proof (cases "\<exists>query message. pcs s t = H_callback query message")
    case True
    then obtain query message where pc: "pcs s t = H_callback query message" by blast
    with t have "t < next_tid s" by simp
    from sum_holding_upd [OF this, of H_lock_terminate "pcs s"] pc
    have "(\<Sum>u<next_tid s. holding (pcs s u))
            = (\<Sum>u<next_tid s. holding (if u = t then H_lock_terminate else pcs s u)) + {#query#}"
      by simp
    moreover from assms(1) pc
    have "s' = s\<lparr>called := called s @ [(query, message)], pcs := (pcs s)(t := H_lock_terminate)\<rparr>"
      by (simp add: sys_defs)
    ultimately show ?thesis using c
      by (simp add: called_inv_def inflight_def ac_simps)
  next
    case False
    then show ?thesis using assms(1) t c
      unfolding called_inv_def inflight_def
      by (cases "pcs s t")
        (clarsimp simp: sys_defs sum_holding_same sum_holding_add sum_holding_beyond
          holding_woken split: if_splits list.splits)+
  qed
qed

lemma step_called_inv:
  assumes "step a s = Some s'" and "called_inv s" and "tid_inv s"
  shows "called_inv s'"
proof (cases a)
  case (Run t)
  with assms show ?thesis by (simp add: stmt_called_inv)
next
  case (Execute t out)
  with assms(1) obtain query where pc: "pcs s t = H_execute query"
    by (auto simp: sys_defs split: pc.splits)
  with assms(3) have lt: "t < next_tid s"
    by (auto simp: tid_inv_def not_le [symmetric])
  have c: "mset (map fst (called s)) + (\<Sum>u<next_tid s. holding (pcs s u)) \<subseteq># mset (dequeued s)"
    using assms(2) by (simp add: called_inv_def inflight_def)
  show ?thesis
  proof (cases "completion (typeVal s) out")
    case (Inl f)
    from sum_holding_upd [OF lt, of "Faulted f" "pcs s"] pc
    have "(\<Sum>u<next_tid s. holding (pcs s u))
            = (\<Sum>u<next_tid s. holding (if u = t then Faulted f else pcs s u)) + {#query#}"
      by simp
    then have "mset (map fst (called s))
        + (\<Sum>u<next_tid s. holding (if u = t then Faulted f else pcs s u))
        \<subseteq># mset (map fst (called s)) + (\<Sum>u<next_tid s. holding (pcs s u))"
      by simp
    from subset_mset.order_trans [OF this c]
    have "mset (map fst (called s))
        + (\<Sum>u<next_tid s. holding (if u = t then Faulted f else pcs s u)) \<subseteq># mset (dequeued s)" .
    moreover from assms(1) Execute pc Inl have "s' = s\<lparr>pcs := (pcs s)(t := Faulted f)\<rparr>"
      by (simp add: sys_defs)
    ultimately show ?thesis
      by (simp add: called_inv_def inflight_def)
  next
    case (Inr m)
    with assms(1) Execute pc have "s' = s\<lparr>pcs := (pcs s)(t := H_callback query m)\<rparr>"
      by (simp add: sys_defs)
    then show ?thesis using pc c
      by (simp add: called_inv_def inflight_def sum_holding_same)
  qed
next
  case (Notify t u)
  with assms(1) obtain c p where n: "notifies (pcs s t) = Some (c, p)"
    and w: "waits_on (pcs s u) = Some c"
    and s': "s' = s\<lparr>pcs := (pcs s)(u := woken (pcs s u), t := p)\<rparr>"
    by (auto simp: sys_defs split: option.splits if_splits)
  have "(\<Sum>v<next_tid s. holding (((pcs s)(u := woken (pcs s u), t := p)) v))
          = (\<Sum>v<next_tid s. holding (pcs s v))"
    using notifies_next [OF n] waits_on_woken [OF w] by (intro sum.cong) auto
  with assms(2) show ?thesis
    by (simp add: called_inv_def inflight_def s')
next
  case (Spurious u)
  with assms(1) obtain c where w: "waits_on (pcs s u) = Some c"
    and s': "s' = s\<lparr>pcs := (pcs s)(u := woken (pcs s u))\<rparr>"
    by (auto simp: sys_defs split: option.splits if_splits)
  have "(\<Sum>v<next_tid s. holding (((pcs s)(u := woken (pcs s u))) v))
          = (\<Sum>v<next_tid s. holding (pcs s v))"
    using waits_on_woken [OF w] by (intro sum.cong) auto
  with assms(2) show ?thesis
    by (simp add: called_inv_def inflight_def s')
qed (use assms in \<open>auto simp: called_inv_def inflight_def sys_defs sum_holding_beyond\<close>)

subsection \<open>Invariants of every schedule\<close>

lemma init_invariants:
  "mutex_inv (init tv n tb) \<and> tid_inv (init tv n tb) \<and> guard_inv (init tv n tb)
   \<and> called_inv (init tv n tb)
   \<and> dequeued (init tv n tb) @ queries (init tv n tb) = enqueued (init tv n tb)"
  by (simp add: init_def mutex_inv_def tid_inv_def guard_inv_def called_inv_def inflight_def)

lemma run_invariants:
  assumes "run sched s = Some s'"
    and "mutex_inv s \<and> tid_inv s \<and> guard_inv s \<and> called_inv s
         \<and> dequeued s @ queries s = enqueued s"
  shows "mutex_inv s' \<and> tid_inv s' \<and> guard_inv s' \<and> called_inv s'
         \<and> dequeued s' @ queries s' = enqueued s'"
  using assms
proof (induction sched arbitrary: s)
  case Nil
  then show ?case by simp
next
  case (Cons a sched)
  from Cons.prems(1) obtain s1 where a: "step a s = Some s1" and r: "run sched s1 = Some s'"
    by (auto split: option.splits)
  from a Cons.prems(2)
  have "mutex_inv s1 \<and> tid_inv s1 \<and> guard_inv s1 \<and> called_inv s1
         \<and> dequeued s1 @ queries s1 = enqueued s1"
    by (simp add: step_mutex_inv step_tid_inv step_guard_inv step_called_inv step_fifo)
  with Cons.IH [OF r] show ?case .
qed

lemmas reachable_invariants = run_invariants [OF _ init_invariants]


subsection \<open>A stopped pool\<close>

lemma tid_inv_stopped:
  assumes "tid_inv s" and "stopped s"
  shows "\<not> live (pcs s t)"
proof (cases "t < next_tid s")
  case True
  with assms(2) show ?thesis by (simp add: stopped_def list_all_iff)
next
  case False
  with assms(1) show ?thesis by (simp add: tid_inv_def)
qed

lemma stmt_all_stopped:
  assumes "stmt t (pcs s t) s = Some s'" and "\<forall>t. \<not> live (pcs s t)"
  shows "(\<forall>t. \<not> live (pcs s' t)) \<and> called s' = called s \<and> dequeued s' = dequeued s
         \<and> (\<exists>new. queries s' = queries s @ new)"
proof (intro conjI allI)
  fix u
  from assms(2) have "\<not> live (pcs s t)" and "\<not> live (pcs s u)" by simp_all
  with assms(1) show "\<not> live (pcs s' u)"
    by (cases "pcs s t") (clarsimp simp: sys_defs live_woken split: if_splits list.splits)+
next
  from assms(2) have t: "\<not> live (pcs s t)" by simp
  with assms(1) show "called s' = called s"
    by (cases "pcs s t") (clarsimp simp: sys_defs split: if_splits list.splits)+
  from assms(1) t show "dequeued s' = dequeued s"
    by (cases "pcs s t") (clarsimp simp: sys_defs split: if_splits list.splits)+
  from assms(1) t show "\<exists>new. queries s' = queries s @ new"
    by (cases "pcs s t") (clarsimp simp: sys_defs split: if_splits list.splits)+
qed

lemma step_all_stopped:
  assumes "step a s = Some s'" and "a \<noteq> Call_start" and "\<forall>t. \<not> live (pcs s t)"
  shows "(\<forall>t. \<not> live (pcs s' t)) \<and> called s' = called s \<and> dequeued s' = dequeued s
         \<and> (\<exists>new. queries s' = queries s @ new)"
proof (cases a)
  case (Run t)
  with assms show ?thesis by (simp add: stmt_all_stopped)
next
  case (Execute t out)
  from assms(3) have "\<not> live (pcs s t)" by simp
  with assms(1) Execute show ?thesis
    by (auto simp: sys_defs split: pc.splits)
next
  case (Notify t u)
  with assms(1) obtain c p where n: "notifies (pcs s t) = Some (c, p)"
    and w: "waits_on (pcs s u) = Some c"
    and s': "s' = s\<lparr>pcs := (pcs s)(u := woken (pcs s u), t := p)\<rparr>"
    by (auto simp: sys_defs split: option.splits if_splits)
  from assms(3) have "\<not> live (pcs s v)" for v by simp
  from this [of t] this [of u] this notifies_next [OF n] show ?thesis
    by (simp add: s' live_woken)
next
  case (Spurious u)
  with assms(1) have s': "s' = s\<lparr>pcs := (pcs s)(u := woken (pcs s u))\<rparr>"
    by (auto simp: sys_defs split: option.splits if_splits)
  with assms(3) show ?thesis
    by (simp add: live_woken)
qed (use assms in \<open>auto simp: sys_defs split: if_splits\<close>)

lemma run_all_stopped:
  assumes "run sched s = Some s'" and "no_start sched" and "\<forall>t. \<not> live (pcs s t)"
  shows "(\<forall>t. \<not> live (pcs s' t)) \<and> called s' = called s \<and> dequeued s' = dequeued s
         \<and> (\<exists>new. queries s' = queries s @ new)"
  using assms
proof (induction sched arbitrary: s)
  case Nil
  then show ?case by simp
next
  case (Cons a sched)
  from Cons.prems(1) obtain s1 where a: "step a s = Some s1" and r: "run sched s1 = Some s'"
    by (auto split: option.splits)
  from Cons.prems(2) have na: "a \<noteq> Call_start" and ns: "no_start sched"
    by (simp_all add: no_start_def)
  from step_all_stopped [OF a na Cons.prems(3)]
  have s1: "\<forall>t. \<not> live (pcs s1 t)" and eq: "called s1 = called s" "dequeued s1 = dequeued s"
    and q: "\<exists>new. queries s1 = queries s @ new"
    by simp_all
  from Cons.IH [OF r ns s1] eq q show ?case by auto
qed

lemma distinct_sub_mset:
  assumes "mset xs \<subseteq># mset ys" and "distinct ys"
  shows "distinct xs"
proof -
  have "count (mset xs) a \<le> 1" for a
  proof -
    have "count (mset xs) a \<le> count (mset ys) a"
      using assms(1) by (rule mset_subset_eq_count)
    also have "\<dots> \<le> 1"
      using assms(2) by (simp add: distinct_count_atmost_1)
    finally show ?thesis .
  qed
  then show ?thesis
    by (metis count_mset_0_iff distinct_count_atmost_1 le_antisym not_less_eq_eq
        One_nat_def le_zero_eq nat_le_linear)
qed

subsection \<open>The counter counts the workers\<close>

lemma counted_woken: "counted (if waits_on p = Some c then woken p else p) = counted p"
  by (cases p) auto

lemma counted_woken': "waits_on p = Some c \<Longrightarrow> counted (woken p) = counted p"
  by (cases p) auto

lemma sum_counted_upd:
  assumes "t < (n::nat)"
  shows "(\<Sum>u<n. counted (if u = t then p else f u)) + counted (f t)
           = (\<Sum>u<n. counted (f u)) + counted p"
proof -
  have t: "t \<in> {..<n}" using assms by simp
  have fin: "finite {..<n}" by simp
  have "(\<Sum>u\<in>{..<n} - {t}. counted (if u = t then p else f u))
          = (\<Sum>u\<in>{..<n} - {t}. counted (f u))"
    by (rule sum.cong) auto
  then show ?thesis
    unfolding sum.remove [OF fin t] by (simp add: ac_simps)
qed

lemma sum_counted_same:
  "counted p = counted (f t) \<Longrightarrow>
     (\<Sum>u<n::nat. counted (if u = t then p else f u)) = (\<Sum>u<n. counted (f u))"
  by (rule sum.cong) auto

lemma sum_counted_change:
  "t < (n::nat) \<Longrightarrow>
     (\<Sum>u<n. counted (if u = t then p else f u))
       = (\<Sum>u<n. counted (f u)) + counted p - counted (f t)"
  using sum_counted_upd [of t n p f] by simp

lemma sum_counted_beyond:
  "(\<Sum>u<n::nat. counted (if u = n then p else f u)) = (\<Sum>u<n. counted (f u))"
  by (rule sum.cong) simp_all

lemma stmt_count_inv:
  assumes "stmt t (pcs s t) s = Some s'" and "count_inv s" and "tid_inv s"
  shows "count_inv s'"
proof -
  from assms(3) have t: "pcs s t \<noteq> Unused \<longrightarrow> t < next_tid s"
    by (auto simp: tid_inv_def not_le [symmetric])
  have c: "threads s = (\<Sum>u<next_tid s. counted (pcs s u))"
    using assms(2) by (simp add: count_inv_def)
  show ?thesis using assms(1) t c
    unfolding count_inv_def
    by (cases "pcs s t")
      (clarsimp simp: sys_defs sum_counted_same sum_counted_change sum_counted_beyond
        counted_woken split: if_splits list.splits)+
qed

lemma step_count_inv:
  assumes "step a s = Some s'" and "count_inv s" and "tid_inv s"
  shows "count_inv s'"
proof (cases a)
  case (Run t)
  with assms show ?thesis by (simp add: stmt_count_inv)
next
  case (Execute t out)
  with assms(1) obtain query where pc: "pcs s t = H_execute query"
    by (auto simp: sys_defs split: pc.splits)
  with assms(1) Execute obtain p where s': "s' = s\<lparr>pcs := (pcs s)(t := p)\<rparr>"
    and p: "counted p = 1"
    by (auto simp: sys_defs split: sum.splits)
  with pc assms(2) show ?thesis
    by (simp add: count_inv_def sum_counted_same)
next
  case (Notify t u)
  with assms(1) obtain c p where n: "notifies (pcs s t) = Some (c, p)"
    and w: "waits_on (pcs s u) = Some c"
    and s': "s' = s\<lparr>pcs := (pcs s)(u := woken (pcs s u), t := p)\<rparr>"
    by (auto simp: sys_defs split: option.splits if_splits)
  from n have "counted p = counted (pcs s t)" by (cases "pcs s t") auto
  then have "(\<Sum>v<next_tid s. counted (((pcs s)(u := woken (pcs s u), t := p)) v))
          = (\<Sum>v<next_tid s. counted (pcs s v))"
    using counted_woken' [OF w] by (intro sum.cong) auto
  with assms(2) show ?thesis
    by (simp add: count_inv_def s')
next
  case (Spurious u)
  with assms(1) obtain c where w: "waits_on (pcs s u) = Some c"
    and s': "s' = s\<lparr>pcs := (pcs s)(u := woken (pcs s u))\<rparr>"
    by (auto simp: sys_defs split: option.splits if_splits)
  have "(\<Sum>v<next_tid s. counted (((pcs s)(u := woken (pcs s u))) v))
          = (\<Sum>v<next_tid s. counted (pcs s v))"
    using counted_woken' [OF w] by (intro sum.cong) auto
  with assms(2) show ?thesis
    by (simp add: count_inv_def s')
qed (use assms in \<open>auto simp: count_inv_def sys_defs sum_counted_beyond\<close>)

lemma faulted_woken: "faulted (woken p) = faulted p"
  by (cases p) auto

lemma stmt_faulted:
  assumes "stmt t (pcs s t) s = Some s'" and "faulted (pcs s u)" and "tid_inv s"
  shows "faulted (pcs s' u)"
proof (cases "u = t")
  case True
  with assms(2) obtain f where "pcs s t = Faulted f" by (cases "pcs s t") auto
  with assms(1) show ?thesis by simp
next
  case False
  from assms(2,3) have "u < next_tid s" by (auto simp: tid_inv_def not_le [symmetric])
  with False assms(1,2) show ?thesis
    by (cases "pcs s t") (clarsimp simp: sys_defs faulted_woken split: if_splits list.splits)+
qed

lemma step_faulted:
  assumes "step a s = Some s'" and "faulted (pcs s u)" and "tid_inv s"
  shows "faulted (pcs s' u)"
proof (cases a)
  case (Run t)
  with assms show ?thesis by (simp add: stmt_faulted)
next
  case (Execute t out)
  with assms show ?thesis
    by (auto simp: sys_defs split: pc.splits sum.splits if_splits)
next
  case (Notify t v)
  with assms(1) obtain c p where n: "notifies (pcs s t) = Some (c, p)"
    and w: "waits_on (pcs s v) = Some c"
    and s': "s' = s\<lparr>pcs := (pcs s)(v := woken (pcs s v), t := p)\<rparr>"
    by (auto simp: sys_defs split: option.splits if_splits)
  from n have "\<not> faulted (pcs s t)" by (cases "pcs s t") auto
  with assms(2) show ?thesis
    by (auto simp: s' faulted_woken)
next
  case (Spurious v)
  with assms show ?thesis
    by (auto simp: sys_defs faulted_woken split: if_splits)
next
  case Call_start
  from assms(2,3) have "u < next_tid s" by (auto simp: tid_inv_def not_le [symmetric])
  with assms Call_start show ?thesis by (auto simp: sys_defs)
next
  case Call_terminate
  from assms(2,3) have "u < next_tid s" by (auto simp: tid_inv_def not_le [symmetric])
  with assms Call_terminate show ?thesis by (auto simp: sys_defs)
next
  case (Call_queue q)
  from assms(2,3) have "u < next_tid s" by (auto simp: tid_inv_def not_le [symmetric])
  with assms Call_queue show ?thesis by (auto simp: sys_defs)
qed

lemma stmt_exact:
  assumes "stmt t (pcs s t) s = Some s'" and "tid_inv s" and "\<not> faulted (pcs s' t)"
    and "mset (map fst (called s)) + inflight s = mset (dequeued s)"
  shows "mset (map fst (called s')) + inflight s' = mset (dequeued s')"
proof -
  from assms(2) have t: "pcs s t \<noteq> Unused \<longrightarrow> t < next_tid s"
    by (auto simp: tid_inv_def not_le [symmetric])
  have c: "mset (map fst (called s)) + (\<Sum>u<next_tid s. holding (pcs s u)) = mset (dequeued s)"
    using assms(4) by (simp add: inflight_def)
  show ?thesis
  proof (cases "\<exists>query message. pcs s t = H_callback query message")
    case True
    then obtain query message where pc: "pcs s t = H_callback query message" by blast
    with t have "t < next_tid s" by simp
    from sum_holding_upd [OF this, of H_lock_terminate "pcs s"] pc
    have "(\<Sum>u<next_tid s. holding (pcs s u))
            = (\<Sum>u<next_tid s. holding (if u = t then H_lock_terminate else pcs s u)) + {#query#}"
      by simp
    moreover from assms(1) pc
    have "s' = s\<lparr>called := called s @ [(query, message)], pcs := (pcs s)(t := H_lock_terminate)\<rparr>"
      by (simp add: sys_defs)
    ultimately show ?thesis using c
      by (simp add: inflight_def ac_simps)
  next
    case False
    then show ?thesis using assms(1,3) t c
      unfolding inflight_def
      by (cases "pcs s t")
        (clarsimp simp: sys_defs sum_holding_same sum_holding_add sum_holding_beyond
          holding_woken split: if_splits list.splits)+
  qed
qed

lemma step_exact_inv:
  assumes "step a s = Some s'" and "exact_inv s" and "tid_inv s"
  shows "exact_inv s'"
  unfolding exact_inv_def
proof
  assume nf': "\<forall>t. \<not> faulted (pcs s' t)"
  have nf: "\<not> faulted (pcs s t)" for t
    using step_faulted [OF assms(1) _ assms(3), of t] nf' by blast
  with assms(2) have e: "mset (map fst (called s)) + inflight s = mset (dequeued s)"
    by (simp add: exact_inv_def)
  then have c: "mset (map fst (called s)) + (\<Sum>u<next_tid s. holding (pcs s u)) = mset (dequeued s)"
    by (simp add: inflight_def)
  show "mset (map fst (called s')) + inflight s' = mset (dequeued s')"
  proof (cases a)
    case (Run t)
    with assms(1) have "stmt t (pcs s t) s = Some s'" by simp
    from stmt_exact [OF this assms(3) _ e] nf' show ?thesis by simp
  next
    case (Execute t out)
    with assms(1) obtain query where pc: "pcs s t = H_execute query"
      by (auto simp: sys_defs split: pc.splits)
    show ?thesis
    proof (cases "completion (typeVal s) out")
      case (Inl f)
      with assms(1) Execute pc have "pcs s' t = Faulted f"
        by (auto simp: sys_defs)
      with nf' [rule_format, of t] show ?thesis by simp
    next
      case (Inr m)
      with assms(1) Execute pc have "s' = s\<lparr>pcs := (pcs s)(t := H_callback query m)\<rparr>"
        by (simp add: sys_defs)
      then show ?thesis using pc c
        by (simp add: inflight_def sum_holding_same)
    qed
  next
    case (Notify t u)
    with assms(1) obtain c' p where n: "notifies (pcs s t) = Some (c', p)"
      and w: "waits_on (pcs s u) = Some c'"
      and s': "s' = s\<lparr>pcs := (pcs s)(u := woken (pcs s u), t := p)\<rparr>"
      by (auto simp: sys_defs split: option.splits if_splits)
    have "(\<Sum>v<next_tid s. holding (((pcs s)(u := woken (pcs s u), t := p)) v))
            = (\<Sum>v<next_tid s. holding (pcs s v))"
      using notifies_next [OF n] waits_on_woken [OF w] by (intro sum.cong) auto
    with c show ?thesis
      by (simp add: inflight_def s')
  next
    case (Spurious u)
    with assms(1) obtain c' where w: "waits_on (pcs s u) = Some c'"
      and s': "s' = s\<lparr>pcs := (pcs s)(u := woken (pcs s u))\<rparr>"
      by (auto simp: sys_defs split: option.splits if_splits)
    have "(\<Sum>v<next_tid s. holding (((pcs s)(u := woken (pcs s u))) v))
            = (\<Sum>v<next_tid s. holding (pcs s v))"
      using waits_on_woken [OF w] by (intro sum.cong) auto
    with c show ?thesis
      by (simp add: inflight_def s')
  qed (use assms(1) c in \<open>auto simp: inflight_def sys_defs sum_holding_beyond\<close>)
qed

lemma counted_nonneg: "0 \<le> counted p"
  by (cases p) auto

lemma counted_zero: "counted p = 0 \<Longrightarrow> \<not> faulted p \<and> holding p = {#}"
  by (cases p) auto

lemma init_counts:
  "count_inv (init tv n tb) \<and> exact_inv (init tv n tb)"
  by (simp add: init_def count_inv_def exact_inv_def inflight_def)

lemma run_counts:
  assumes "run sched s = Some s'" and "tid_inv s \<and> count_inv s \<and> exact_inv s"
  shows "tid_inv s' \<and> count_inv s' \<and> exact_inv s'"
  using assms
proof (induction sched arbitrary: s)
  case Nil
  then show ?case by simp
next
  case (Cons a sched)
  from Cons.prems(1) obtain s1 where a: "step a s = Some s1" and r: "run sched s1 = Some s'"
    by (auto split: option.splits)
  from a Cons.prems(2) have "tid_inv s1 \<and> count_inv s1 \<and> exact_inv s1"
    by (simp add: step_tid_inv step_count_inv step_exact_inv)
  with Cons.IH [OF r] show ?case .
qed

lemma idle_counter:
  assumes "tid_inv s" and "count_inv s" and "threads s = 0"
  shows "counted (pcs s t) = 0"
proof (cases "t < next_tid s")
  case True
  from assms(2,3) have "(\<Sum>u<next_tid s. counted (pcs s u)) = 0"
    by (simp add: count_inv_def)
  then have "\<forall>u\<in>{..<next_tid s}. counted (pcs s u) = 0"
    by (subst (asm) sum_nonneg_eq_0_iff) (simp_all add: counted_nonneg)
  with True show ?thesis by simp
next
  case False
  with assms(1) show ?thesis by (simp add: tid_inv_def)
qed

subsection \<open>The invariants of orderly runs\<close>












































subsection \<open>A call of \<open>start()\<close> run with its workers\<close>






section \<open>The claims about the worker pool\<close>

text \<open>
  C3, as the code has it: when the call of \<open>execute\<close> for an item throws an exception
  derived from \<open>std::exception\<close> with a description that is not empty, the worker
  catches it, builds a completion message with the type value of the connection and a
  payload taken from the start of the description, and invokes the callback of that
  item with it; it is then at the head of its loop, and nothing else of the state has
  changed: the queue holds the items it held, no other thread has moved. How much of
  the description the payload holds is not part of this statement.
\<close>

theorem worker_isolates_exception:
  assumes "pcs s t = H_execute query" and "what \<noteq> []"
  shows "\<exists>message. type_m message = typeVal s
           \<and> data_m message = Some (take (size_m message) what)
           \<and> run [Execute t (Threw_exception what), Run t] s
               = Some (s\<lparr>called := called s @ [(query, message)],
                         pcs := (pcs s)(t := H_lock_terminate)\<rparr>)"
proof -
  from assms(2) have "1 \<le> length what" by (cases what) simp_all
  then have "completion (typeVal s) (Threw_exception what)
      = Inr \<lparr>type_m = typeVal s, size_m = length what - 1,
             data_m = Some (take (length what - 1) what)\<rparr>"
    by (simp add: completion_def strlen_at_def)
  with assms(1) show ?thesis
    by (intro exI [of _ "\<lparr>type_m = typeVal s, size_m = length what - 1,
             data_m = Some (take (length what - 1) what)\<rparr>"]) (simp add: sys_defs)
qed

text \<open>
  The worker of \<open>sched_popped\<close> has popped \<open>item1\<close>; its \<open>execute\<close> throws an exception
  with the description \<open>"duplicate key"\<close>.
\<close>

theorem worker_isolates_exception_witness:
  "pcs (state_after sched_popped) 3 = H_execute item1
   \<and> ''duplicate key'' \<noteq> []
   \<and> queries (state_after sched_popped) = [item2]
   \<and> (\<exists>message. type_m message = typeVal (state_after sched_popped)
         \<and> data_m message = Some (take (size_m message) ''duplicate key'')
         \<and> run [Execute 3 (Threw_exception ''duplicate key''), Run 3] (state_after sched_popped)
            = Some ((state_after sched_popped)
                \<lparr>called := called (state_after sched_popped) @ [(item1, message)],
                 pcs := (pcs (state_after sched_popped))(3 := H_lock_terminate)\<rparr>))"
proof -
  have h: "pcs (state_after sched_popped) 3 = H_execute item1"
    and q: "queries (state_after sched_popped) = [item2]"
    by (simp_all add: eval_defs)
  have w: "''duplicate key'' \<noteq> []" by simp
  from worker_isolates_exception [OF h w] h w q show ?thesis by blast
qed

text \<open>
  C3 as stated fails for a failure that is not a \<open>std::exception\<close>: the handler of line
  647 does not catch it. The worker of \<open>sched_popped\<close> leaves \<open>intHandler\<close>, it makes no
  further step, no callback has been invoked, and \<open>item2\<close> stays in the queue of a pool
  whose only worker is gone.
\<close>

theorem uncaught_exception_ends_worker:
  "run (sched_popped @ [Execute 3 Threw_other]) (init 0 1 False)
     = Some (state_after (sched_popped @ [Execute 3 Threw_other]))
   \<and> pcs (state_after sched_popped) 3 = H_execute item1
   \<and> pcs (state_after (sched_popped @ [Execute 3 Threw_other])) 3 = Faulted Uncaught
   \<and> called (state_after (sched_popped @ [Execute 3 Threw_other])) = []
   \<and> queries (state_after (sched_popped @ [Execute 3 Threw_other])) = [item2]
   \<and> step (Run 3) (state_after (sched_popped @ [Execute 3 Threw_other])) = None"
  by (simp add: eval_defs)

text \<open>
  C4, as the code has it. In every state a schedule leads to: \<open>terminate()\<close> sets the
  flag as the owner of \<open>terminateMutex\<close>, releases that mutex, and then its
  \<open>notify_all()\<close> wakes every thread that waits on \<open>wakeUp\<close>; it leaves its loop only
  with the counter at 0, and it is at its return only with the counter at 0, still the
  owner of \<open>threadsMutex\<close>. Once no thread runs \<open>intHandler\<close> or \<open>start\<close>, every
  schedule without a new call of \<open>start()\<close> leaves the pool stopped, pops nothing,
  invokes no callback and keeps the items of the queue, in their order, in front of
  the items queued later.
\<close>

theorem terminate_stops_pool:
  assumes "run sched (init tv n tb) = Some s"
  shows "(pcs s t = T_set \<longrightarrow>
            terminateMutex s = Some t
            \<and> step (Run t) s = Some (s\<lparr>terminateBool := True,
                  pcs := (pcs s)(t := T_unlock_terminate)\<rparr>))
       \<and> (pcs s t = T_unlock_terminate \<longrightarrow>
            step (Run t) s = Some (s\<lparr>terminateMutex := None,
                  pcs := (pcs s)(t := T_notify_all)\<rparr>))
       \<and> (pcs s t = T_notify_all \<longrightarrow>
            step (Run t) s = Some (s\<lparr>pcs := (\<lambda>u. if u = t then T_lock_threads
                  else if pcs s u = H_waiting then H_relock else pcs s u)\<rparr>))
       \<and> (pcs s t = T_test \<longrightarrow>
            step (Run t) s = Some (s\<lparr>pcs := (pcs s)(t := if threads s \<noteq> 0 then T_wait
                  else T_return)\<rparr>))
       \<and> (pcs s t = T_return \<longrightarrow>
            threads s = 0 \<and> threadsMutex s = Some t
            \<and> step (Run t) s = Some (s\<lparr>threadsMutex := None,
                  pcs := (pcs s)(t := Finished)\<rparr>))
       \<and> (stopped s \<and> no_start sched' \<and> run sched' s = Some s' \<longrightarrow>
            stopped s' \<and> called s' = called s \<and> dequeued s' = dequeued s
            \<and> (\<exists>new. queries s' = queries s @ new))"
proof -
  from reachable_invariants [OF assms]
  have m: "mutex_inv s" and i: "tid_inv s" and g: "guard_inv s"
    by simp_all
  from m have mt: "holds_terminate (pcs s t) \<longrightarrow> terminateMutex s = Some t"
    and mc: "holds_threads (pcs s t) \<longrightarrow> threadsMutex s = Some t"
    by (simp_all add: mutex_inv_def)
  from g have z: "pcs s t = T_return \<longrightarrow> threads s = 0"
    by (simp add: guard_inv_def)
  have set: "pcs s t = T_set \<longrightarrow>
            terminateMutex s = Some t
            \<and> step (Run t) s = Some (s\<lparr>terminateBool := True,
                  pcs := (pcs s)(t := T_unlock_terminate)\<rparr>)"
    using mt by (simp add: sys_defs)
  have unlock: "pcs s t = T_unlock_terminate \<longrightarrow>
            step (Run t) s = Some (s\<lparr>terminateMutex := None,
                  pcs := (pcs s)(t := T_notify_all)\<rparr>)"
    by (simp add: sys_defs)
  have bcast: "pcs s t = T_notify_all \<longrightarrow>
            step (Run t) s = Some (s\<lparr>pcs := (\<lambda>u. if u = t then T_lock_threads
                  else if pcs s u = H_waiting then H_relock else pcs s u)\<rparr>)"
    by (simp add: sys_defs wake_all_WakeUp fun_eq_iff)
  have test: "pcs s t = T_test \<longrightarrow>
            step (Run t) s = Some (s\<lparr>pcs := (pcs s)(t := if threads s \<noteq> 0 then T_wait
                  else T_return)\<rparr>)"
    by (simp add: sys_defs)
  have ret: "pcs s t = T_return \<longrightarrow>
            threads s = 0 \<and> threadsMutex s = Some t
            \<and> step (Run t) s = Some (s\<lparr>threadsMutex := None,
                  pcs := (pcs s)(t := Finished)\<rparr>)"
    using mc z by (simp add: sys_defs)
  have drop: "stopped s' \<and> called s' = called s \<and> dequeued s' = dequeued s
            \<and> (\<exists>new. queries s' = queries s @ new)"
    if "stopped s" and "no_start sched'" and "run sched' s = Some s'"
  proof -
    from i that(1) have "\<forall>t. \<not> live (pcs s t)"
      by (simp add: tid_inv_stopped)
    from run_all_stopped [OF that(3) that(2) this] show ?thesis
      by (simp add: stopped_def list_all_iff)
  qed
  from set unlock bcast test ret drop show ?thesis by blast
qed

text \<open>
  Three states of the pool of one worker: \<open>terminate()\<close> about to set the flag,
  \<open>terminate()\<close> about to return, and the stopped pool with \<open>item1\<close> left over, in
  which a further \<open>queue(item2)\<close> runs.
\<close>

theorem terminate_stops_pool_witness:
  "pcs (state_after (sched_terminating 2)) 3 = T_set
   \<and> terminateMutex (state_after (sched_terminating 2)) = Some 3
   \<and> pcs (state_after (sched_terminating 3)) 3 = T_unlock_terminate
   \<and> step (Run 3) (state_after (sched_terminating 3))
       = Some ((state_after (sched_terminating 3))
           \<lparr>terminateMutex := None,
            pcs := (pcs (state_after (sched_terminating 3)))(3 := T_notify_all)\<rparr>)
   \<and> pcs (state_after sched_stopping) 2 = T_notify_all
   \<and> pcs (state_after sched_stopping) 1 = H_waiting
   \<and> step (Run 2) (state_after sched_stopping)
       = Some ((state_after sched_stopping)
           \<lparr>pcs := (\<lambda>u. if u = 2 then T_lock_threads
              else if pcs (state_after sched_stopping) u = H_waiting then H_relock
              else pcs (state_after sched_stopping) u)\<rparr>)
   \<and> pcs (state_after (sched_terminating 6)) 3 = T_test
   \<and> threads (state_after (sched_terminating 6)) = 1
   \<and> step (Run 3) (state_after (sched_terminating 6))
       = Some ((state_after (sched_terminating 6))
           \<lparr>pcs := (pcs (state_after (sched_terminating 6)))(3 := T_wait)\<rparr>)
   \<and> pcs (state_after (sched_terminating 19)) 3 = T_return
   \<and> threads (state_after (sched_terminating 19)) = 0
   \<and> stopped (state_after sched_dropped)
   \<and> no_start sched_queue2
   \<and> run sched_queue2 (state_after sched_dropped)
       = Some (state_after (sched_dropped @ sched_queue2))
   \<and> queries (state_after sched_dropped) = [item1]
   \<and> queries (state_after (sched_dropped @ sched_queue2)) = [item1, item2]
   \<and> called (state_after (sched_dropped @ sched_queue2)) = called (state_after sched_dropped)
   \<and> dequeued (state_after (sched_dropped @ sched_queue2))
       = dequeued (state_after sched_dropped)"
proof -
  have r: "run (sched_terminating 2) (init 0 1 False) = Some (state_after (sched_terminating 2))"
    "run (sched_terminating 3) (init 0 1 False) = Some (state_after (sched_terminating 3))"
    "run sched_stopping (init 0 1 False) = Some (state_after sched_stopping)"
    "run (sched_terminating 6) (init 0 1 False) = Some (state_after (sched_terminating 6))"
    "run (sched_terminating 19) (init 0 1 False) = Some (state_after (sched_terminating 19))"
    "run sched_dropped (init 0 1 False) = Some (state_after sched_dropped)"
    by (simp_all add: eval_defs)
  have p: "pcs (state_after (sched_terminating 2)) 3 = T_set"
    "pcs (state_after (sched_terminating 3)) 3 = T_unlock_terminate"
    "pcs (state_after sched_stopping) 2 = T_notify_all"
    "pcs (state_after sched_stopping) 1 = H_waiting"
    "pcs (state_after (sched_terminating 6)) 3 = T_test"
    "threads (state_after (sched_terminating 6)) = 1"
    "pcs (state_after (sched_terminating 19)) 3 = T_return"
    by (simp_all add: eval_defs)
  have h: "stopped (state_after sched_dropped)"
    "no_start sched_queue2"
    "run sched_queue2 (state_after sched_dropped)
       = Some (state_after (sched_dropped @ sched_queue2))"
    "queries (state_after sched_dropped) = [item1]"
    "queries (state_after (sched_dropped @ sched_queue2)) = [item1, item2]"
    by (simp_all add: eval_defs stopped_def no_start_def)
  have c1: "terminateMutex (state_after (sched_terminating 2)) = Some 3"
    using terminate_stops_pool [OF r(1), of 3] p(1) by blast
  have c2: "step (Run 3) (state_after (sched_terminating 3))
       = Some ((state_after (sched_terminating 3))
           \<lparr>terminateMutex := None,
            pcs := (pcs (state_after (sched_terminating 3)))(3 := T_notify_all)\<rparr>)"
    using terminate_stops_pool [OF r(2), of 3] p(2) by blast
  have c3: "step (Run 2) (state_after sched_stopping)
       = Some ((state_after sched_stopping)
           \<lparr>pcs := (\<lambda>u. if u = 2 then T_lock_threads
              else if pcs (state_after sched_stopping) u = H_waiting then H_relock
              else pcs (state_after sched_stopping) u)\<rparr>)"
    using terminate_stops_pool [OF r(3), of 2] p(3) by blast
  have "step (Run 3) (state_after (sched_terminating 6))
       = Some ((state_after (sched_terminating 6))
           \<lparr>pcs := (pcs (state_after (sched_terminating 6)))
              (3 := if threads (state_after (sched_terminating 6)) \<noteq> 0 then T_wait
                    else T_return)\<rparr>)"
    using terminate_stops_pool [OF r(4), of 3] p(5) by blast
  then have c4: "step (Run 3) (state_after (sched_terminating 6))
       = Some ((state_after (sched_terminating 6))
           \<lparr>pcs := (pcs (state_after (sched_terminating 6)))(3 := T_wait)\<rparr>)"
    by (simp add: p(6))
  have c5: "threads (state_after (sched_terminating 19)) = 0"
    using terminate_stops_pool [OF r(5), of 3] p(7) by blast
  have c6: "called (state_after (sched_dropped @ sched_queue2)) = called (state_after sched_dropped)
    \<and> dequeued (state_after (sched_dropped @ sched_queue2)) = dequeued (state_after sched_dropped)"
    using terminate_stops_pool [OF r(6), of 3 sched_queue2
        "state_after (sched_dropped @ sched_queue2)"] h(1-3)
    by blast
  from p h c1 c2 c3 c4 c5 c6 show ?thesis by blast
qed

text \<open>
  C4 as stated fails where it says never: after \<open>sched_dropped\<close> the pool has stopped,
  \<open>terminate()\<close> has returned and \<open>item1\<close> is left in the queue with no callback
  invoked; a later \<open>start()\<close> creates a worker that pops \<open>item1\<close> and invokes its
  callback.
\<close>

theorem restart_runs_leftover_item:
  "run (sched_dropped @ sched_restart) (init 0 1 False)
     = Some (state_after (sched_dropped @ sched_restart))
   \<and> stopped (state_after sched_dropped)
   \<and> pcs (state_after sched_dropped) 3 = Finished
   \<and> queries (state_after sched_dropped) = [item1]
   \<and> called (state_after sched_dropped) = []
   \<and> dequeued (state_after (sched_dropped @ sched_restart)) = [item1]
   \<and> map fst (called (state_after (sched_dropped @ sched_restart))) = [item1]"
  by (simp add: eval_defs stopped_def)

text \<open>
  C5, as the code has it. In every state a schedule leads to, the items whose
  callbacks have been invoked are among the items popped, with their multiplicities,
  and the items popped followed by the items in the queue are the items queued, in
  their order: a callback is never invoked more often than its item was queued, and
  when the items queued are distinct no callback is invoked twice. When \<open>terminate()\<close>
  is at its return, the callbacks invoked are exactly the items popped, each as often
  as it was popped: no item that a worker has taken from the queue is left out, and
  the items queued are the items reported and the items still in the queue. An item
  still in the queue has not been reported.
\<close>

theorem callbacks_at_most_once:
  assumes "run sched (init tv n tb) = Some s"
  shows "mset (map fst (called s)) \<subseteq># mset (dequeued s)
         \<and> dequeued s @ queries s = enqueued s
         \<and> (distinct (enqueued s) \<longrightarrow> distinct (map fst (called s)))
         \<and> (pcs s t = T_return \<longrightarrow>
              mset (map fst (called s)) = mset (dequeued s)
              \<and> mset (map fst (called s)) + mset (queries s) = mset (enqueued s))"
proof -
  from reachable_invariants [OF assms]
  have c: "called_inv s" and f: "dequeued s @ queries s = enqueued s"
    and i: "tid_inv s" and g: "guard_inv s"
    by simp_all
  from run_counts [OF assms] init_invariants init_counts
  have k: "count_inv s" and e: "exact_inv s"
    by simp_all
  have "mset (map fst (called s)) \<subseteq># mset (map fst (called s)) + inflight s"
    by simp
  moreover from c have "mset (map fst (called s)) + inflight s \<subseteq># mset (dequeued s)"
    by (simp add: called_inv_def)
  ultimately have sub: "mset (map fst (called s)) \<subseteq># mset (dequeued s)"
    by (rule subset_mset.order_trans)
  have dist: "distinct (map fst (called s))" if "distinct (enqueued s)"
  proof -
    from that f have "distinct (dequeued s)" by (metis distinct_append)
    with sub show ?thesis by (rule distinct_sub_mset)
  qed
  have all: "mset (map fst (called s)) = mset (dequeued s)" if "pcs s t = T_return"
  proof -
    from g that have "threads s = 0" by (simp add: guard_inv_def)
    from idle_counter [OF i k this] have z: "\<not> faulted (pcs s u) \<and> holding (pcs s u) = {#}" for u
      by (simp add: counted_zero)
    then have "inflight s = {#}" by (simp add: inflight_def)
    with e z show ?thesis by (simp add: exact_inv_def)
  qed
  have "mset (map fst (called s)) + mset (queries s) = mset (enqueued s)" if "pcs s t = T_return"
    using all [OF that] f by (metis mset_append)
  with sub f dist all show ?thesis by blast
qed

text \<open>
  The schedule \<open>sched_served\<close>: two items are queued, the worker pops \<open>item1\<close> and
  invokes its callback once, and \<open>terminate()\<close> by thread 4 is at its return with
  \<open>item2\<close> still in the queue.
\<close>

theorem callbacks_at_most_once_witness:
  "run sched_served (init 0 1 False) = Some (state_after sched_served)
   \<and> pcs (state_after sched_served) 4 = T_return
   \<and> enqueued (state_after sched_served) = [item1, item2]
   \<and> distinct (enqueued (state_after sched_served))
   \<and> dequeued (state_after sched_served) = [item1]
   \<and> queries (state_after sched_served) = [item2]
   \<and> map fst (called (state_after sched_served)) = [item1]
   \<and> mset (map fst (called (state_after sched_served)))
       \<subseteq># mset (dequeued (state_after sched_served))
   \<and> distinct (map fst (called (state_after sched_served)))
   \<and> mset (map fst (called (state_after sched_served)))
       = mset (dequeued (state_after sched_served))
   \<and> mset (map fst (called (state_after sched_served))) + mset (queries (state_after sched_served))
       = mset (enqueued (state_after sched_served))
   \<and> dequeued (state_after sched_served) @ queries (state_after sched_served)
       = enqueued (state_after sched_served)"
proof -
  have r: "run sched_served (init 0 1 False) = Some (state_after sched_served)"
    by (simp add: eval_defs sched_served_def)
  have p: "pcs (state_after sched_served) 4 = T_return"
    "enqueued (state_after sched_served) = [item1, item2]"
    "dequeued (state_after sched_served) = [item1]"
    "queries (state_after sched_served) = [item2]"
    "map fst (called (state_after sched_served)) = [item1]"
    by (simp_all add: eval_defs sched_served_def)
  have d: "distinct (enqueued (state_after sched_served))"
    by (simp add: p(2) item1_def item2_def)
  from callbacks_at_most_once [OF r, of 4] r p d show ?thesis by blast
qed

text \<open>
  C5 as stated fails: in \<open>sched_dropped\<close> the call \<open>queue(item1)\<close> of thread 2 has
  returned before thread 3 calls \<open>terminate()\<close>; the worker finds the flag set before
  it looks at the queue, and \<open>terminate()\<close> returns with the counter at 0 and no
  callback invoked.
\<close>

theorem terminate_returns_without_callback:
  "run sched_dropped (init 0 1 False) = Some (state_after sched_dropped)
   \<and> pcs (state_after (sched_start @ sched_idle @ sched_queue1)) 2 = Finished
   \<and> pcs (state_after sched_dropped) 3 = Finished
   \<and> threads (state_after sched_dropped) = 0
   \<and> enqueued (state_after sched_dropped) = [item1]
   \<and> called (state_after sched_dropped) = []"
  by (simp add: eval_defs)






end
